theory Spec2Isabelle
  imports Main "HOL-Library.Word"
begin

unbundle bit_operations_syntax

section \<open>SimpleSQL: the row store, its codec and its front end\<close>

text \<open>
  The sources under verification are \<^verbatim>\<open>table.c\<close> (\<^verbatim>\<open>db_open\<close>, \<^verbatim>\<open>serialize_row\<close>,
  \<^verbatim>\<open>deserialize_row\<close>, \<^verbatim>\<open>row_slot\<close>), the statement front end
  (\<^verbatim>\<open>prepare_statement\<close>, \<^verbatim>\<open>execute_insert\<close>, \<^verbatim>\<open>execute_select\<close>) and the two
  versions of \<^verbatim>\<open>db.h\<close>. Machine integers are words, memory is an explicit store of
  page buffers, every fatal exit of the C code is an error value.
\<close>

subsection \<open>Machine types and memory\<close>

type_synonym byte = "8 word"
type_synonym u32 = "32 word"

text \<open>
  A page buffer is the block returned by \<^verbatim>\<open>get_page\<close>; the page cache
  \<^verbatim>\<open>pager->pages[]\<close> holds \<^verbatim>\<open>NULL\<close> (\<open>None\<close>) or a buffer. A \<^verbatim>\<open>void*\<close> into the
  cache is the pair of the page number and the byte offset inside that page.
\<close>

type_synonym page = "nat \<Rightarrow> byte"
type_synonym pages = "nat \<Rightarrow> page option"
type_synonym ptr = "nat \<times> nat"

definition ptr_add :: "ptr \<Rightarrow> nat \<Rightarrow> ptr" where
  "ptr_add p n = (fst p, snd p + n)"

text \<open>\<^verbatim>\<open>memcpy(dst, src, n)\<close> with the source given as its \<open>n\<close> bytes.\<close>

fun write_page :: "page \<Rightarrow> nat \<Rightarrow> byte list \<Rightarrow> page" where
  "write_page pg off [] = pg"
| "write_page pg off (b # bs) = write_page (pg(off := b)) (Suc off) bs"

definition memcpy_to :: "pages \<Rightarrow> ptr \<Rightarrow> byte list \<Rightarrow> pages" where
  "memcpy_to m dst bs =
     (case m (fst dst) of
        None \<Rightarrow> m
      | Some pg \<Rightarrow> m(fst dst \<mapsto> write_page pg (snd dst) bs))"

text \<open>\<^verbatim>\<open>memcpy(&field, src, n)\<close>: the \<open>n\<close> bytes read at \<open>src\<close>.\<close>

definition read_page :: "page \<Rightarrow> nat \<Rightarrow> nat \<Rightarrow> byte list" where
  "read_page pg off n = map pg [off ..< off + n]"

definition memcpy_from :: "pages \<Rightarrow> ptr \<Rightarrow> nat \<Rightarrow> byte list" where
  "memcpy_from m src n =
     (case m (fst src) of
        None \<Rightarrow> []
      | Some pg \<Rightarrow> read_page pg (snd src) n)"

text \<open>
  The object representation of a \<^verbatim>\<open>uint32_t\<close>, as \<^verbatim>\<open>memcpy\<close> sees it
  (least significant byte first).
\<close>

definition u32_to_bytes :: "u32 \<Rightarrow> byte list" where
  "u32_to_bytes w =
     [ucast w, ucast (drop_bit 8 w), ucast (drop_bit 16 w), ucast (drop_bit 24 w)]"

definition u32_of_bytes :: "byte list \<Rightarrow> u32" where
  "u32_of_bytes bs =
     (ucast (bs ! 0)) OR push_bit 8 (ucast (bs ! 1))
       OR push_bit 16 (ucast (bs ! 2)) OR push_bit 24 (ucast (bs ! 3))"

subsection \<open>Constants of \<^verbatim>\<open>db.h\<close>\<close>

definition COLUMN_USERNAME_SIZE :: nat where "COLUMN_USERNAME_SIZE = 32"
definition COLUMN_EMAIL_SIZE :: nat where "COLUMN_EMAIL_SIZE = 255"
definition TABLE_MAX_PAGES :: nat where "TABLE_MAX_PAGES = 100"

text \<open>
  Modelled from the spec: the definitions of the \<^verbatim>\<open>extern const\<close> layout constants are
  missing from the sources. The row is
  \<open>{ id: uint32, username: 32+1 bytes, email: 255+1 bytes }\<close>, serialized at contiguous
  offsets in the order id, username, email; a page is 4096 bytes.
\<close>

definition ID_SIZE :: nat where "ID_SIZE = 4"
definition USERNAME_SIZE :: nat where "USERNAME_SIZE = COLUMN_USERNAME_SIZE + 1"
definition EMAIL_SIZE :: nat where "EMAIL_SIZE = COLUMN_EMAIL_SIZE + 1"
definition ID_OFFSET :: nat where "ID_OFFSET = 0"
definition USERNAME_OFFSET :: nat where "USERNAME_OFFSET = ID_OFFSET + ID_SIZE"
definition EMAIL_OFFSET :: nat where "EMAIL_OFFSET = USERNAME_OFFSET + USERNAME_SIZE"
definition ROW_SIZE :: nat where "ROW_SIZE = ID_SIZE + USERNAME_SIZE + EMAIL_SIZE"
definition PAGE_SIZE :: nat where "PAGE_SIZE = 4096"

lemmas layout_defs =
  COLUMN_USERNAME_SIZE_def COLUMN_EMAIL_SIZE_def ID_SIZE_def USERNAME_SIZE_def
  EMAIL_SIZE_def ID_OFFSET_def USERNAME_OFFSET_def EMAIL_OFFSET_def ROW_SIZE_def

subsection \<open>Rows\<close>

text \<open>
  \<^verbatim>\<open>typedef struct { uint32_t id; char username[33]; char email[256]; } Row;\<close>
  The two arrays are byte lists; \<open>row_wf\<close> says that they have the declared sizes.
\<close>

record Row =
  id :: u32
  username :: "byte list"
  email :: "byte list"

definition row_wf :: "Row \<Rightarrow> bool" where
  "row_wf r \<longleftrightarrow> length (username r) = USERNAME_SIZE \<and> length (email r) = EMAIL_SIZE"

text \<open>\<^verbatim>\<open>serialize_row\<close>, \<^verbatim>\<open>table.c\<close> lines 18 to 22.\<close>

definition serialize_row :: "Row \<Rightarrow> ptr \<Rightarrow> pages \<Rightarrow> pages" where
  "serialize_row source destination m =
     (let m1 = memcpy_to m (ptr_add destination ID_OFFSET) (take ID_SIZE (u32_to_bytes (id source)));
          m2 = memcpy_to m1 (ptr_add destination USERNAME_OFFSET) (take USERNAME_SIZE (username source));
          m3 = memcpy_to m2 (ptr_add destination EMAIL_OFFSET) (take EMAIL_SIZE (email source))
      in m3)"

text \<open>\<^verbatim>\<open>deserialize_row\<close>, \<^verbatim>\<open>table.c\<close> lines 24 to 28.\<close>

definition deserialize_row :: "pages \<Rightarrow> ptr \<Rightarrow> Row" where
  "deserialize_row m source =
     \<lparr> id = u32_of_bytes (memcpy_from m (ptr_add source ID_OFFSET) ID_SIZE),
       username = memcpy_from m (ptr_add source USERNAME_OFFSET) USERNAME_SIZE,
       email = memcpy_from m (ptr_add source EMAIL_OFFSET) EMAIL_SIZE \<rparr>"

subsection \<open>Results, statements, pager and table\<close>

text \<open>
  \<^verbatim>\<open>ExecuteResult\<close> as the newer \<^verbatim>\<open>db.h\<close> declares it (the older header has no
  \<^verbatim>\<open>EXECUTE_DUPLICATE_KEY\<close>); \<^verbatim>\<open>PrepareResult\<close> and \<^verbatim>\<open>StatementType\<close> are the same in
  both headers.
\<close>

datatype ExecuteResult = EXECUTE_SUCCESS | EXECUTE_DUPLICATE_KEY | EXECUTE_TABLE_FULL

datatype PrepareResult =
    PREPARE_SUCCESS
  | PREPARE_SYNTAX_ERROR
  | PREPARE_NEGATIVE_ID
  | PREPARE_STRING_TOO_LONG
  | PREPARE_UNRECOGNIZED_STATEMENT

datatype StatementType = STATEMENT_INSERT | STATEMENT_SELECT

record Statement =
  type :: StatementType
  row_to_insert :: Row

text \<open>
  Fatal conditions, which end the C process instead of returning: a failed open, a page
  number beyond the page cache, and the trap of an unsigned division by zero.
\<close>

datatype error = IOError | CapacityExhausted | DivisionByZero

text \<open>
  \<^verbatim>\<open>Pager\<close>: the open file descriptor is modelled by the contents of the file it refers
  to (the file is written only when the table is closed); \<^verbatim>\<open>pages\<close> is the cache
  \<^verbatim>\<open>void* pages[TABLE_MAX_PAGES]\<close>. The field \<^verbatim>\<open>num_pages\<close> of the newer header is read by
  none of the functions below.
\<close>

record Pager =
  file_descriptor :: "byte list"
  file_length :: u32
  pages :: pages

text \<open>\<^verbatim>\<open>Table\<close> as \<^verbatim>\<open>table.c\<close> and \<^verbatim>\<open>execute_insert\<close> use it: a pager and a row count.\<close>

record Table =
  pager :: Pager
  num_rows :: u32

text \<open>
  \<^verbatim>\<open>ROWS_PER_PAGE\<close> and \<^verbatim>\<open>TABLE_MAX_ROWS\<close> are declared \<^verbatim>\<open>extern const uint32_t\<close> in
  \<^verbatim>\<open>db.h\<close>; their definitions are not in the sources, so they are parameters of every
  function that reads them.
\<close>

record limits =
  ROWS_PER_PAGE :: u32
  TABLE_MAX_ROWS :: u32

subsection \<open>The pager\<close>

text \<open>
  Modelled from the spec: \<^verbatim>\<open>pager_open\<close> is missing from the sources. ``Opens (creating
  if absent) the backing file; records file length; fails if file length is not a whole
  multiple of the page size (corruption signal).'' The argument is the file found at the
  path, \<open>None\<close> when there is none.
\<close>

definition pager_open :: "byte list option \<Rightarrow> error + Pager" where
  "pager_open filename =
     (let contents = (case filename of None \<Rightarrow> [] | Some bs \<Rightarrow> bs)
      in if length contents mod PAGE_SIZE \<noteq> 0 then Inl IOError
         else Inr \<lparr> file_descriptor = contents,
                    file_length = of_nat (length contents),
                    pages = (\<lambda>_. None) \<rparr>)"

text \<open>
  Modelled from the spec: the contents of a buffer that \<^verbatim>\<open>get_page\<close> (missing from the
  sources) allocates. ``If not yet cached, allocates a zeroed buffer and, if the page lies
  within the current file extent, loads its bytes from disk (partial-page read at the tail
  is permitted).''
\<close>

definition load_page :: "byte list \<Rightarrow> nat \<Rightarrow> page" where
  "load_page f n =
     (\<lambda>i. if i < PAGE_SIZE \<and> n * PAGE_SIZE + i < length f then f ! (n * PAGE_SIZE + i) else 0)"

text \<open>
  Modelled from the spec: \<^verbatim>\<open>get_page\<close> is missing from the sources. ``Returns the
  in-memory buffer for \<open>page_num\<close>, constraint \<open>page_num < max_pages\<close>; if not yet
  cached, allocates a zeroed buffer [...]. Subsequent calls return the same cached
  buffer.'' ``Exceeding the fixed maximum page count is a fatal engine error (capacity
  exhausted).'' The buffer returned is entry \<open>page_num\<close> of the cache of the pager
  returned.
\<close>

definition get_page :: "Pager \<Rightarrow> u32 \<Rightarrow> error + Pager" where
  "get_page pg page_num =
     (if TABLE_MAX_PAGES \<le> unat page_num then Inl CapacityExhausted
      else case pages pg (unat page_num) of
             Some _ \<Rightarrow> Inr pg
           | None \<Rightarrow>
               Inr (pg\<lparr>pages := (pages pg)(unat page_num \<mapsto> load_page (file_descriptor pg) (unat page_num))\<rparr>))"

subsection \<open>\<^verbatim>\<open>table.c\<close>\<close>

text \<open>\<^verbatim>\<open>db_open\<close>, lines 3 to 12.\<close>

definition db_open :: "byte list option \<Rightarrow> error + Table" where
  "db_open filename =
     (case pager_open filename of
        Inl e \<Rightarrow> Inl e
      | Inr pg \<Rightarrow> Inr \<lparr> pager = pg, num_rows = file_length pg div of_nat ROW_SIZE \<rparr>)"

text \<open>
  \<^verbatim>\<open>row_slot\<close>, lines 30 to 36. The result is the table with the page cache as
  \<^verbatim>\<open>get_page\<close> leaves it, and the pointer \<^verbatim>\<open>page + byte_offset\<close>.
\<close>

definition row_slot :: "limits \<Rightarrow> Table \<Rightarrow> u32 \<Rightarrow> error + (Table \<times> ptr)" where
  "row_slot c table row_num =
     (if ROWS_PER_PAGE c = 0 then Inl DivisionByZero
      else
        let page_num = row_num div ROWS_PER_PAGE c
        in case get_page (pager table) page_num of
             Inl e \<Rightarrow> Inl e
           | Inr pg \<Rightarrow>
               let row_offset = row_num mod ROWS_PER_PAGE c;
                   byte_offset = row_offset * of_nat ROW_SIZE
               in Inr (table\<lparr>pager := pg\<rparr>, ptr_add (unat page_num, 0) (unat byte_offset)))"

subsection \<open>Statement execution\<close>

text \<open>\<^verbatim>\<open>execute_insert\<close>, lines 64 to 75 of the front end.\<close>

definition execute_insert :: "limits \<Rightarrow> Statement \<Rightarrow> Table \<Rightarrow> error + (ExecuteResult \<times> Table)" where
  "execute_insert c statement table =
     (if TABLE_MAX_ROWS c \<le> num_rows table then Inr (EXECUTE_TABLE_FULL, table)
      else
        case row_slot c table (num_rows table) of
          Inl e \<Rightarrow> Inl e
        | Inr (table1, destination) \<Rightarrow>
            let pg = pager table1;
                table2 = table1\<lparr>pager :=
                  pg\<lparr>pages := serialize_row (row_to_insert statement) destination (pages pg)\<rparr>\<rparr>;
                table3 = table2\<lparr>num_rows := num_rows table2 + 1\<rparr>
            in Inr (EXECUTE_SUCCESS, table3))"

text \<open>
  \<^verbatim>\<open>execute_select\<close>, lines 77 to 84. The output is the list of the rows handed to
  \<^verbatim>\<open>print_row\<close>, in the order of the calls.
\<close>

function select_loop :: "limits \<Rightarrow> u32 \<Rightarrow> Table \<Rightarrow> Row list \<Rightarrow> error + (Row list \<times> Table)" where
  "select_loop c i table out =
     (if i < num_rows table then
        case row_slot c table i of
          Inl e \<Rightarrow> Inl e
        | Inr (table1, source) \<Rightarrow>
            select_loop c (i + 1) table1 (out @ [deserialize_row (pages (pager table1)) source])
      else Inr (out, table))"
  by pat_completeness auto

termination
proof (relation "measure (\<lambda>(c, i, table, out). unat (num_rows table) - unat i)")
  show "wf (measure (\<lambda>(c, i, table, out). unat (num_rows table) - unat i))" by simp
next
  fix c :: limits and i :: u32 and table :: Table and out :: "Row list"
    and x2 :: "Table \<times> ptr" and table1 :: Table and source :: ptr
  assume lt: "i < num_rows table" and rs: "row_slot c table i = Inr x2"
    and x2: "(table1, source) = x2"
  from rs x2 have same: "num_rows table1 = num_rows table"
    by (auto simp: row_slot_def Let_def split: if_splits sum.splits)
  from lt have less: "unat i < unat (num_rows table)" by (simp add: word_less_nat_alt)
  moreover have "unat (num_rows table) < 2 ^ 32" using unsigned_less [of "num_rows table"] by simp
  ultimately have "unat i + unat (1 :: u32) < 2 ^ LENGTH(32)" by simp
  then have "unat (i + 1) = unat i + unat (1 :: u32)" by (simp only: unat_add_lem)
  with same less show "((c, i + 1, table1, out @ [deserialize_row (pages (pager table1)) source]),
                    (c, i, table, out))
                   \<in> measure (\<lambda>(c, i, table, out). unat (num_rows table) - unat i)"
    by simp
qed

declare select_loop.simps [simp del]

definition execute_select :: "limits \<Rightarrow> Statement \<Rightarrow> Table \<Rightarrow> error + (ExecuteResult \<times> Row list \<times> Table)" where
  "execute_select c statement table =
     (case select_loop c 0 table [] of
        Inl e \<Rightarrow> Inl e
      | Inr (out, table1) \<Rightarrow> Inr (EXECUTE_SUCCESS, out, table1))"

text \<open>\<^verbatim>\<open>execute_statement\<close>, lines 86 to 93; an insert prints nothing.\<close>

definition execute_statement :: "limits \<Rightarrow> Statement \<Rightarrow> Table \<Rightarrow> error + (ExecuteResult \<times> Row list \<times> Table)" where
  "execute_statement c statement table =
     (case type statement of
        STATEMENT_INSERT \<Rightarrow>
          (case execute_insert c statement table of
             Inl e \<Rightarrow> Inl e
           | Inr (res, table1) \<Rightarrow> Inr (res, [], table1))
      | STATEMENT_SELECT \<Rightarrow> execute_select c statement table)"

subsection \<open>Statement preparation\<close>

text \<open>
  The part of \<^verbatim>\<open>sscanf\<close> that the format \<^verbatim>\<open>"insert %d %s %s"\<close> uses. White space in the
  format, and before a conversion, skips any white space of the input; \<^verbatim>\<open>%d\<close> reads an
  optional sign and decimal digits; \<^verbatim>\<open>%s\<close> reads the characters up to the next white
  space and stores them with a terminating zero byte.
\<close>

definition isspace :: "char \<Rightarrow> bool" where
  "isspace ch \<longleftrightarrow> (of_char ch :: nat) \<in> {32, 9, 10, 11, 12, 13}"

definition isdigit :: "char \<Rightarrow> bool" where
  "isdigit ch \<longleftrightarrow> 48 \<le> (of_char ch :: nat) \<and> (of_char ch :: nat) \<le> 57"

fun digits_value :: "int \<Rightarrow> string \<Rightarrow> int" where
  "digits_value acc [] = acc"
| "digits_value acc (d # ds) = digits_value (acc * 10 + (int (of_char d) - 48)) ds"

definition scan_d :: "string \<Rightarrow> (int \<times> string) option" where
  "scan_d inp =
     (let s = dropWhile isspace inp;
          neg = (s \<noteq> [] \<and> hd s = CHR ''-'');
          s1 = (if s \<noteq> [] \<and> (hd s = CHR ''-'' \<or> hd s = CHR ''+'') then tl s else s);
          ds = takeWhile isdigit s1
      in if ds = [] then None
         else Some ((if neg then - digits_value 0 ds else digits_value 0 ds),
                    dropWhile isdigit s1))"

definition scan_s :: "string \<Rightarrow> (string \<times> string) option" where
  "scan_s inp =
     (let s = dropWhile isspace inp;
          tok = takeWhile (\<lambda>ch. \<not> isspace ch) s
      in if tok = [] then None
         else Some (tok, dropWhile (\<lambda>ch. \<not> isspace ch) s))"

text \<open>What \<^verbatim>\<open>%s\<close> leaves in a \<^verbatim>\<open>char\<close> array: the token, a zero byte, the old tail.\<close>

definition store_string :: "string \<Rightarrow> byte list \<Rightarrow> byte list" where
  "store_string tok old =
     map (\<lambda>ch. of_nat (of_char ch)) tok @ [0] @ drop (length tok + 1) old"

text \<open>
  \<^verbatim>\<open>sscanf(buffer, "insert %d %s %s", &id, username, email)\<close> on the input that follows
  the literal \<^verbatim>\<open>insert\<close>: the number of assignments and the row as the assignments leave
  it. The result is \<open>None\<close> where C leaves the behaviour undefined: a number that an
  \<^verbatim>\<open>int\<close> cannot represent, or a token longer than the array it is stored in
  (\<^verbatim>\<open>%s\<close> has no field width here).
\<close>

definition sscanf_insert :: "string \<Rightarrow> Row \<Rightarrow> (int \<times> Row) option" where
  "sscanf_insert inp row =
     (case scan_d inp of
        None \<Rightarrow> Some (if dropWhile isspace inp = [] then - 1 else 0, row)
      | Some (v, rest1) \<Rightarrow>
          if v < - (2 ^ 31) \<or> 2 ^ 31 \<le> v then None
          else
            let row1 = row\<lparr>id := word_of_int v\<rparr>
            in case scan_s rest1 of
                 None \<Rightarrow> Some (1, row1)
               | Some (u, rest2) \<Rightarrow>
                   if USERNAME_SIZE < length u + 1 then None
                   else
                     let row2 = row1\<lparr>username := store_string u (username row1)\<rparr>
                     in case scan_s rest2 of
                          None \<Rightarrow> Some (2, row2)
                        | Some (e, rest3) \<Rightarrow>
                            if EMAIL_SIZE < length e + 1 then None
                            else Some (3, row2\<lparr>email := store_string e (email row2)\<rparr>))"

text \<open>
  \<^verbatim>\<open>prepare_statement\<close>, lines 44 to 62 of the front end. The statement is an in-out
  parameter; \<open>Undefined_Behaviour\<close> stands for the executions that C leaves undefined.
\<close>

datatype prepare_outcome = Returned PrepareResult Statement | Undefined_Behaviour

definition prepare_statement :: "string \<Rightarrow> Statement \<Rightarrow> prepare_outcome" where
  "prepare_statement buffer statement =
     (if take 6 buffer = ''insert'' then
        let statement1 = statement\<lparr>type := STATEMENT_INSERT\<rparr>
        in case sscanf_insert (drop 6 buffer) (row_to_insert statement1) of
             None \<Rightarrow> Undefined_Behaviour
           | Some (args_assigned, row) \<Rightarrow>
               if args_assigned < 3
               then Returned PREPARE_SYNTAX_ERROR (statement1\<lparr>row_to_insert := row\<rparr>)
               else Returned PREPARE_SUCCESS (statement1\<lparr>row_to_insert := row\<rparr>)
      else if buffer = ''select'' then
        Returned PREPARE_SUCCESS (statement\<lparr>type := STATEMENT_SELECT\<rparr>)
      else Returned PREPARE_UNRECOGNIZED_STATEMENT statement)"

subsection \<open>Sessions\<close>

text \<open>
  The read-execute loop of the program: the statements are executed in order on the
  table that \<^verbatim>\<open>db_open\<close> returns; each statement contributes its result and the rows it
  printed.
\<close>

fun execute_all :: "limits \<Rightarrow> Table \<Rightarrow> Statement list \<Rightarrow> error + ((ExecuteResult \<times> Row list) list \<times> Table)" where
  "execute_all c table [] = Inr ([], table)"
| "execute_all c table (s # ss) =
     (case execute_statement c s table of
        Inl e \<Rightarrow> Inl e
      | Inr (res, out, table1) \<Rightarrow>
          (case execute_all c table1 ss of
             Inl e \<Rightarrow> Inl e
           | Inr (rest, table2) \<Rightarrow> Inr ((res, out) # rest, table2)))"

definition session :: "limits \<Rightarrow> byte list option \<Rightarrow> Statement list \<Rightarrow> error + (ExecuteResult \<times> Row list) list" where
  "session c filename ss =
     (case db_open filename of
        Inl e \<Rightarrow> Inl e
      | Inr table \<Rightarrow>
          (case execute_all c table ss of
             Inl e \<Rightarrow> Inl e
           | Inr (outs, _) \<Rightarrow> Inr outs))"

definition insert_stmt :: "Row \<Rightarrow> Statement" where
  "insert_stmt r = \<lparr> type = STATEMENT_INSERT, row_to_insert = r \<rparr>"

definition select_stmt :: "Row \<Rightarrow> Statement" where
  "select_stmt r = \<lparr> type = STATEMENT_SELECT, row_to_insert = r \<rparr>"

subsection \<open>Notions used in the statements\<close>

text \<open>
  What the theorems assume of the two constants whose definitions are missing: a page
  holds \<^verbatim>\<open>ROWS_PER_PAGE\<close> whole rows, and \<^verbatim>\<open>TABLE_MAX_ROWS\<close> rows fit in the
  \<^verbatim>\<open>TABLE_MAX_PAGES\<close> pages of the cache.
\<close>

definition page_layout_ok :: "limits \<Rightarrow> bool" where
  "page_layout_ok c \<longleftrightarrow>
     0 < unat (ROWS_PER_PAGE c) \<and> unat (ROWS_PER_PAGE c) * ROW_SIZE \<le> PAGE_SIZE"

definition limits_ok :: "limits \<Rightarrow> bool" where
  "limits_ok c \<longleftrightarrow>
     page_layout_ok c \<and> unat (TABLE_MAX_ROWS c) \<le> unat (ROWS_PER_PAGE c) * TABLE_MAX_PAGES"

text \<open>The values that fill a page with whole rows: 13 rows a page, 1300 rows.\<close>

definition default_limits :: limits where
  "default_limits = \<lparr> ROWS_PER_PAGE = 13, TABLE_MAX_ROWS = 1300 \<rparr>"

text \<open>The slot of row \<open>i\<close>, in natural numbers.\<close>

definition slot_ptr :: "limits \<Rightarrow> nat \<Rightarrow> ptr" where
  "slot_ptr c i =
     (i div unat (ROWS_PER_PAGE c), (i mod unat (ROWS_PER_PAGE c)) * ROW_SIZE)"

text \<open>The contents of the buffer that \<^verbatim>\<open>get_page\<close> returns for page \<open>n\<close>.\<close>

definition page_after :: "Pager \<Rightarrow> nat \<Rightarrow> page" where
  "page_after pg n =
     (case pages pg n of Some p \<Rightarrow> p | None \<Rightarrow> load_page (file_descriptor pg) n)"

text \<open>The \<^verbatim>\<open>ROW_SIZE\<close> bytes of the slot that \<^verbatim>\<open>row_slot\<close> returns for a row number.\<close>

definition slot_bytes :: "limits \<Rightarrow> Table \<Rightarrow> u32 \<Rightarrow> byte list option" where
  "slot_bytes c table row_num =
     (case row_slot c table row_num of
        Inl e \<Rightarrow> None
      | Inr (table1, p) \<Rightarrow> Some (memcpy_from (pages (pager table1)) p ROW_SIZE))"

text \<open>Two byte regions of the page cache, given by their start and length, are disjoint.\<close>

definition regions_disjoint :: "ptr \<Rightarrow> nat \<Rightarrow> ptr \<Rightarrow> nat \<Rightarrow> bool" where
  "regions_disjoint p n q k \<longleftrightarrow>
     fst p \<noteq> fst q \<or> snd p + n \<le> snd q \<or> snd q + k \<le> snd p"

text \<open>
  The table holds the rows \<open>rs\<close>: the row count is their number, and slot \<open>i\<close> lies in
  a cached page and deserializes to row \<open>i\<close>.
\<close>

definition stored :: "limits \<Rightarrow> Table \<Rightarrow> Row list \<Rightarrow> bool" where
  "stored c table rs \<longleftrightarrow>
     unat (num_rows table) = length rs \<and>
     length rs \<le> unat (TABLE_MAX_ROWS c) \<and>
     (\<forall>i < length rs.
        pages (pager table) (fst (slot_ptr c i)) \<noteq> None \<and>
        deserialize_row (pages (pager table)) (slot_ptr c i) = rs ! i)"

text \<open>A C string in a \<^verbatim>\<open>char\<close> array of \<open>n\<close> bytes, the unused bytes zero.\<close>

definition c_string :: "nat \<Rightarrow> string \<Rightarrow> byte list" where
  "c_string n s = take n (map (\<lambda>ch. of_nat (of_char ch)) s @ replicate n 0)"

definition mk_row :: "u32 \<Rightarrow> string \<Rightarrow> string \<Rightarrow> Row" where
  "mk_row k u e = \<lparr> id = k, username = c_string USERNAME_SIZE u, email = c_string EMAIL_SIZE e \<rparr>"

section \<open>The B+tree search of the newer \<^verbatim>\<open>db.h\<close>\<close>

text \<open>
  Modelled from the spec: \<^verbatim>\<open>table_find\<close> and \<^verbatim>\<open>leaf_node_find\<close> are declared in the newer
  \<^verbatim>\<open>db.h\<close>, but the file that defines them (\<^verbatim>\<open>node.c\<close>) is missing from the sources.
  The spec's data model: a node is a leaf holding cells (key, serialized row) sorted by
  key, or an internal node holding cells (key, child) and a rightmost child; every node
  lives in one page. The node graph under the root is a tree, so a node carries its page
  number and its children.
\<close>

datatype node =
    NODE_LEAF nat "(u32 \<times> Row) list"
  | NODE_INTERNAL nat "(u32 \<times> node) list" node

text \<open>
  The position part of \<^verbatim>\<open>Cursor\<close>: the page number of the current leaf and the cell
  index. The spec does not say what \<open>find\<close> does with the end-of-table flag.
\<close>

record Cursor =
  page_num :: nat
  cell_num :: nat

text \<open>
  Modelled from the spec: ``at a leaf, binary-search for the key, returning a cursor
  positioned at the matching cell index, or at the index where the key would be inserted
  if absent''.
\<close>

function leaf_node_search :: "u32 list \<Rightarrow> u32 \<Rightarrow> nat \<Rightarrow> nat \<Rightarrow> nat" where
  "leaf_node_search keys key min_index one_past_max_index =
     (if min_index < one_past_max_index then
        let index = (min_index + one_past_max_index) div 2;
            key_at_index = keys ! index
        in if key = key_at_index then index
           else if key < key_at_index then leaf_node_search keys key min_index index
           else leaf_node_search keys key (index + 1) one_past_max_index
      else min_index)"
  by pat_completeness auto
termination
  by (relation "measure (\<lambda>(keys, key, lo, hi). hi - lo)") auto

declare leaf_node_search.simps [simp del]

text \<open>
  Modelled from the spec: \<^verbatim>\<open>leaf_node_find\<close> (declared in the newer \<^verbatim>\<open>db.h\<close>), the
  cursor that the binary search of a leaf gives.
\<close>

definition leaf_node_find :: "nat \<Rightarrow> (u32 \<times> Row) list \<Rightarrow> u32 \<Rightarrow> Cursor" where
  "leaf_node_find pn cells key =
     \<lparr> page_num = pn, cell_num = leaf_node_search (map fst cells) key 0 (length cells) \<rparr>"

text \<open>
  Modelled from the spec: ``at an internal node, binary-search the key array for the
  smallest index whose key \<open>\<ge>\<close> target, following that child (or the rightmost child if
  none qualifies)''.
\<close>

function internal_node_search :: "u32 list \<Rightarrow> u32 \<Rightarrow> nat \<Rightarrow> nat \<Rightarrow> nat" where
  "internal_node_search keys key min_index max_index =
     (if min_index < max_index then
        let index = (min_index + max_index) div 2;
            key_to_right = keys ! index
        in if key \<le> key_to_right then internal_node_search keys key min_index index
           else internal_node_search keys key (index + 1) max_index
      else min_index)"
  by pat_completeness auto
termination
  by (relation "measure (\<lambda>(keys, key, lo, hi). hi - lo)") auto

declare internal_node_search.simps [simp del]

text \<open>
  Modelled from the spec: the child that the search of an internal node follows, child
  \<open>i\<close> for an index among the cells and the rightmost child otherwise.
\<close>

definition child_at :: "(u32 \<times> node) list \<Rightarrow> node \<Rightarrow> nat \<Rightarrow> node" where
  "child_at cells right i = (if i < length cells then snd (cells ! i) else right)"

text \<open>Modelled from the spec: ``\<open>find(table, key)\<close>: descend from the root''.\<close>

function table_find :: "node \<Rightarrow> u32 \<Rightarrow> Cursor" where
  "table_find (NODE_LEAF pn cells) key = leaf_node_find pn cells key"
| "table_find (NODE_INTERNAL pn cells right) key =
     table_find (child_at cells right (internal_node_search (map fst cells) key 0 (length cells))) key"
  by pat_completeness auto
termination
proof (relation "measure (\<lambda>(t, key). size t)")
  show "wf (measure (\<lambda>(t, key). size t))" by simp
next
  fix pn :: nat and cells :: "(u32 \<times> node) list" and right :: node and key :: u32
  let ?i = "internal_node_search (map fst cells) key 0 (length cells)"
  have "size (child_at cells right ?i) < size (NODE_INTERNAL pn cells right)"
  proof (cases "?i < length cells")
    case True
    then have "cells ! ?i \<in> set cells" by simp
    then have "size_prod (\<lambda>_. 0) size (cells ! ?i) \<le> size_list (size_prod (\<lambda>_. 0) size) cells"
      by (rule size_list_estimation') simp
    moreover have "size (snd (cells ! ?i)) \<le> size_prod (\<lambda>_. 0) size (cells ! ?i)"
      by (cases "cells ! ?i") simp
    ultimately show ?thesis using True by (simp add: child_at_def)
  next
    case False
    then show ?thesis by (simp add: child_at_def)
  qed
  then show "((child_at cells right ?i, key), (NODE_INTERNAL pn cells right, key))
      \<in> measure (\<lambda>(t, key). size t)"
    by simp
qed

text \<open>
  The leaves of a tree from left to right, each with its page number: the order in which
  a full scan visits them.
\<close>

fun leaf_nodes :: "node \<Rightarrow> (nat \<times> (u32 \<times> Row) list) list" where
  "leaf_nodes (NODE_LEAF pn cells) = [(pn, cells)]"
| "leaf_nodes (NODE_INTERNAL pn cells right) =
     concat (map (\<lambda>c. leaf_nodes (snd c)) cells) @ leaf_nodes right"

definition leaf_keys :: "(nat \<times> (u32 \<times> Row) list) list \<Rightarrow> u32 list" where
  "leaf_keys ls = concat (map (\<lambda>l. map fst (snd l)) ls)"

definition all_keys :: "node \<Rightarrow> u32 list" where
  "all_keys t = leaf_keys (leaf_nodes t)"

text \<open>
  The spec's invariants: ``for any internal node, \<open>key[i]\<close> equals the maximum key in
  the subtree rooted at \<open>child[i]\<close>'', and, a full scan being in strictly increasing key
  order, the keys of the leaves from left to right are strictly increasing (within a leaf
  and from one leaf to the next; so all keys under the rightmost child exceed the last
  key of the node).
\<close>

fun routing_ok :: "node \<Rightarrow> bool" where
  "routing_ok (NODE_LEAF pn cells) = True"
| "routing_ok (NODE_INTERNAL pn cells right) =
     ((\<forall>c \<in> set cells.
         routing_ok (snd c) \<and> all_keys (snd c) \<noteq> [] \<and> fst c = Max (set (all_keys (snd c)))) \<and>
      routing_ok right)"

definition btree_inv :: "node \<Rightarrow> bool" where
  "btree_inv t \<longleftrightarrow> sorted_wrt (<) (all_keys t) \<and> routing_ok t"

text \<open>A tree of two leaves, as a split leaves it.\<close>

definition example_tree :: node where
  "example_tree =
     NODE_INTERNAL 0
       [(2, NODE_LEAF 1 [(1, mk_row 1 ''alice'' ''alice@example.com''),
                         (2, mk_row 2 ''bob'' ''bob@example.com'')])]
       (NODE_LEAF 2 [(3, mk_row 3 ''carol'' ''carol@example.com''),
                     (7, mk_row 7 ''dave'' ''dave@example.com'')])"

section \<open>Memory and the row codec\<close>

lemma u32_of_to_bytes: "u32_of_bytes (u32_to_bytes w) = w"
  unfolding u32_of_bytes_def u32_to_bytes_def
proof (rule bit_word_eqI)
  fix n assume "n < LENGTH(32)"
  then consider "n < 8" | "8 \<le> n" "n < 16" | "16 \<le> n" "n < 24" | "24 \<le> n" "n < 32"
    by fastforce
  then show "bit (ucast ([ucast w, ucast (drop_bit 8 w), ucast (drop_bit 16 w), ucast (drop_bit 24 w)] ! 0 :: byte) OR
           push_bit 8 (ucast ([ucast w, ucast (drop_bit 8 w), ucast (drop_bit 16 w), ucast (drop_bit 24 w)] ! 1 :: byte)) OR
           push_bit 16 (ucast ([ucast w, ucast (drop_bit 8 w), ucast (drop_bit 16 w), ucast (drop_bit 24 w)] ! 2 :: byte)) OR
           push_bit 24 (ucast ([ucast w, ucast (drop_bit 8 w), ucast (drop_bit 16 w), ucast (drop_bit 24 w)] ! 3 :: byte)) :: u32) n = bit w n"
    by cases (auto simp: bit_simps)
qed

lemma length_u32_to_bytes: "length (u32_to_bytes w) = 4"
  by (simp add: u32_to_bytes_def)

lemma write_page_outside:
  "i < off \<or> off + length bs \<le> i \<Longrightarrow> write_page pg off bs i = pg i"
  by (induction pg off bs rule: write_page.induct) auto

lemma write_page_inside:
  "off \<le> i \<Longrightarrow> i < off + length bs \<Longrightarrow> write_page pg off bs i = bs ! (i - off)"
proof (induction pg off bs rule: write_page.induct)
  case (1 pg off)
  then show ?case by simp
next
  case (2 pg off b bs)
  show ?case
  proof (cases "i = off")
    case True
    then show ?thesis by (simp add: write_page_outside)
  next
    case False
    with "2.prems" have "Suc off \<le> i" "i < Suc off + length bs" by simp_all
    then have "write_page (pg(off := b)) (Suc off) bs i = bs ! (i - Suc off)"
      by (rule "2.IH")
    moreover from False "2.prems" have "i - off = Suc (i - Suc off)" by arith
    then have "(b # bs) ! (i - off) = bs ! (i - Suc off)" by simp
    ultimately show ?thesis by simp
  qed
qed

lemma read_write_same: "read_page (write_page pg off bs) off (length bs) = bs"
  by (rule nth_equalityI) (simp_all add: read_page_def write_page_inside)

lemma read_write_disjoint:
  "off' + n \<le> off \<or> off + length bs \<le> off' \<Longrightarrow>
   read_page (write_page pg off bs) off' n = read_page pg off' n"
  by (auto simp: read_page_def write_page_outside)

lemma ptr_add_simps [simp]: "fst (ptr_add p n) = fst p" "snd (ptr_add p n) = snd p + n"
  by (simp_all add: ptr_add_def)

lemma memcpy_to_None_iff: "memcpy_to m dst bs p = None \<longleftrightarrow> m p = None"
  by (auto simp: memcpy_to_def split: option.splits)

lemma memcpy_to_other: "p \<noteq> fst dst \<Longrightarrow> memcpy_to m dst bs p = m p"
  by (auto simp: memcpy_to_def split: option.splits)

lemma memcpy_from_to_same:
  "m (fst dst) \<noteq> None \<Longrightarrow> memcpy_from (memcpy_to m dst bs) dst (length bs) = bs"
  by (auto simp: memcpy_to_def memcpy_from_def read_write_same split: option.splits)

lemma memcpy_from_to_disjoint:
  "regions_disjoint src n dst (length bs) \<Longrightarrow>
   memcpy_from (memcpy_to m dst bs) src n = memcpy_from m src n"
  by (auto simp: regions_disjoint_def memcpy_to_def memcpy_from_def read_write_disjoint
      split: option.splits)

lemma memcpy_from_cong:
  "m (fst src) = m' (fst src) \<Longrightarrow> memcpy_from m src n = memcpy_from m' src n"
  by (simp add: memcpy_from_def)

lemma serialize_row_None_iff: "serialize_row r dst m p = None \<longleftrightarrow> m p = None"
  by (simp add: serialize_row_def Let_def memcpy_to_None_iff)

lemma serialize_row_other: "p \<noteq> fst dst \<Longrightarrow> serialize_row r dst m p = m p"
  by (simp add: serialize_row_def Let_def memcpy_to_other)

lemma serialize_row_frame:
  assumes "regions_disjoint src n dst ROW_SIZE"
  shows "memcpy_from (serialize_row r dst m) src n = memcpy_from m src n"
proof -
  have a: "regions_disjoint src n (ptr_add dst ID_OFFSET) (length (take ID_SIZE (u32_to_bytes (id r))))"
    using assms by (auto simp: regions_disjoint_def layout_defs length_u32_to_bytes)
  have b: "regions_disjoint src n (ptr_add dst USERNAME_OFFSET) (length (take USERNAME_SIZE (username r)))"
    using assms by (auto simp: regions_disjoint_def layout_defs)
  have c: "regions_disjoint src n (ptr_add dst EMAIL_OFFSET) (length (take EMAIL_SIZE (email r)))"
    using assms by (auto simp: regions_disjoint_def layout_defs)
  show ?thesis
    by (simp only: serialize_row_def Let_def memcpy_from_to_disjoint [OF a]
        memcpy_from_to_disjoint [OF b] memcpy_from_to_disjoint [OF c])
qed

lemma deserialize_serialize:
  assumes wf: "row_wf r" and cached: "m (fst dst) \<noteq> None"
  shows "deserialize_row (serialize_row r dst m) dst = r"
proof -
  let ?ib = "take ID_SIZE (u32_to_bytes (id r))"
  let ?ub = "take USERNAME_SIZE (username r)"
  let ?eb = "take EMAIL_SIZE (email r)"
  let ?m1 = "memcpy_to m (ptr_add dst ID_OFFSET) ?ib"
  let ?m2 = "memcpy_to ?m1 (ptr_add dst USERNAME_OFFSET) ?ub"
  let ?m3 = "memcpy_to ?m2 (ptr_add dst EMAIL_OFFSET) ?eb"
  have li: "length ?ib = ID_SIZE" "?ib = u32_to_bytes (id r)"
    by (simp_all add: ID_SIZE_def length_u32_to_bytes)
  from wf have lu: "length ?ub = USERNAME_SIZE" "?ub = username r"
    and le: "length ?eb = EMAIL_SIZE" "?eb = email r"
    by (simp_all add: row_wf_def)
  have c1: "?m1 (fst dst) \<noteq> None" and c2: "?m2 (fst dst) \<noteq> None"
    using cached by (simp_all add: memcpy_to_None_iff)
  have "memcpy_from ?m3 (ptr_add dst ID_OFFSET) ID_SIZE = memcpy_from ?m2 (ptr_add dst ID_OFFSET) ID_SIZE"
    by (rule memcpy_from_to_disjoint) (simp add: regions_disjoint_def le(1) layout_defs)
  also have "\<dots> = memcpy_from ?m1 (ptr_add dst ID_OFFSET) ID_SIZE"
    by (rule memcpy_from_to_disjoint) (simp add: regions_disjoint_def lu(1) layout_defs)
  also have "\<dots> = ?ib"
    using memcpy_from_to_same [of m "ptr_add dst ID_OFFSET" ?ib] cached li(1) by simp
  finally have i: "memcpy_from ?m3 (ptr_add dst ID_OFFSET) ID_SIZE = u32_to_bytes (id r)"
    using li(2) by simp
  have "memcpy_from ?m3 (ptr_add dst USERNAME_OFFSET) USERNAME_SIZE
        = memcpy_from ?m2 (ptr_add dst USERNAME_OFFSET) USERNAME_SIZE"
    by (rule memcpy_from_to_disjoint) (simp add: regions_disjoint_def le(1) layout_defs)
  also have "\<dots> = ?ub"
    using memcpy_from_to_same [of ?m1 "ptr_add dst USERNAME_OFFSET" ?ub] c1 lu(1) by simp
  finally have u: "memcpy_from ?m3 (ptr_add dst USERNAME_OFFSET) USERNAME_SIZE = username r"
    using lu(2) by simp
  have "memcpy_from ?m3 (ptr_add dst EMAIL_OFFSET) EMAIL_SIZE = ?eb"
    using memcpy_from_to_same [of ?m2 "ptr_add dst EMAIL_OFFSET" ?eb] c2 le(1) by simp
  then have e: "memcpy_from ?m3 (ptr_add dst EMAIL_OFFSET) EMAIL_SIZE = email r"
    using le(2) by simp
  show ?thesis
    by (simp add: deserialize_row_def serialize_row_def Let_def i u e u32_of_to_bytes)
qed

lemma deserialize_row_cong:
  "m (fst src) = m' (fst src) \<Longrightarrow> deserialize_row m src = deserialize_row m' src"
  by (simp add: deserialize_row_def memcpy_from_def)

lemma deserialize_row_frame:
  assumes "regions_disjoint src ROW_SIZE dst ROW_SIZE"
  shows "deserialize_row (serialize_row r dst m) src = deserialize_row m src"
proof -
  have "regions_disjoint (ptr_add src ID_OFFSET) ID_SIZE dst ROW_SIZE"
    "regions_disjoint (ptr_add src USERNAME_OFFSET) USERNAME_SIZE dst ROW_SIZE"
    "regions_disjoint (ptr_add src EMAIL_OFFSET) EMAIL_SIZE dst ROW_SIZE"
    using assms by (auto simp: regions_disjoint_def layout_defs)
  then show ?thesis
    by (simp add: deserialize_row_def serialize_row_frame)
qed

lemma length_c_string: "length (c_string n s) = n"
  by (simp add: c_string_def)

lemma row_wf_mk_row: "row_wf (mk_row k u e)"
  by (simp add: row_wf_def mk_row_def length_c_string)

section \<open>Row slots\<close>

lemma ROW_SIZE_val: "ROW_SIZE = 293"
  by (simp add: layout_defs)

lemma unat_ROW_SIZE: "unat (of_nat ROW_SIZE :: u32) = ROW_SIZE"
  by (simp add: ROW_SIZE_val)

lemma slot_offset_bound:
  assumes "page_layout_ok c"
  shows "snd (slot_ptr c i) + ROW_SIZE \<le> PAGE_SIZE"
proof -
  let ?n = "unat (ROWS_PER_PAGE c)"
  from assms have pos: "0 < ?n" and fit: "?n * ROW_SIZE \<le> PAGE_SIZE"
    by (simp_all add: page_layout_ok_def)
  from pos have "Suc (i mod ?n) \<le> ?n" by (simp add: Suc_leI)
  then have "Suc (i mod ?n) * ROW_SIZE \<le> ?n * ROW_SIZE" by (rule mult_le_mono1)
  with fit show ?thesis by (simp add: slot_ptr_def)
qed

lemma slots_disjoint:
  assumes pos: "0 < unat (ROWS_PER_PAGE c)" and ne: "i \<noteq> j"
  shows "regions_disjoint (slot_ptr c i) ROW_SIZE (slot_ptr c j) ROW_SIZE"
proof (cases "i div unat (ROWS_PER_PAGE c) = j div unat (ROWS_PER_PAGE c)")
  case False
  then show ?thesis by (simp add: regions_disjoint_def slot_ptr_def)
next
  case True
  let ?n = "unat (ROWS_PER_PAGE c)"
  have "i mod ?n \<noteq> j mod ?n"
  proof
    assume "i mod ?n = j mod ?n"
    with True have "i div ?n * ?n + i mod ?n = j div ?n * ?n + j mod ?n" by simp
    then have "i = j" by (simp only: div_mult_mod_eq)
    with ne show False by simp
  qed
  then consider "Suc (i mod ?n) \<le> j mod ?n" | "Suc (j mod ?n) \<le> i mod ?n" by linarith
  then show ?thesis
  proof cases
    case 1
    then have "Suc (i mod ?n) * ROW_SIZE \<le> (j mod ?n) * ROW_SIZE" by (rule mult_le_mono1)
    then show ?thesis by (simp add: regions_disjoint_def slot_ptr_def)
  next
    case 2
    then have "Suc (j mod ?n) * ROW_SIZE \<le> (i mod ?n) * ROW_SIZE" by (rule mult_le_mono1)
    then show ?thesis by (simp add: regions_disjoint_def slot_ptr_def)
  qed
qed

lemma unat_byte_offset:
  assumes "page_layout_ok c"
  shows "unat ((r mod ROWS_PER_PAGE c) * of_nat ROW_SIZE) = (unat r mod unat (ROWS_PER_PAGE c)) * ROW_SIZE"
proof -
  let ?n = "unat (ROWS_PER_PAGE c)"
  from assms have pos: "0 < ?n" and fit: "?n * ROW_SIZE \<le> PAGE_SIZE"
    by (simp_all add: page_layout_ok_def)
  have m: "unat (r mod ROWS_PER_PAGE c) = unat r mod ?n" by (simp add: unat_mod)
  from pos have "unat r mod ?n \<le> ?n" by simp
  then have "(unat r mod ?n) * ROW_SIZE \<le> ?n * ROW_SIZE" by (rule mult_le_mono1)
  from this fit have "(unat r mod ?n) * ROW_SIZE \<le> PAGE_SIZE" by (rule le_trans)
  then have "(unat r mod ?n) * ROW_SIZE \<le> 4096" by (simp add: PAGE_SIZE_def)
  then have "unat (r mod ROWS_PER_PAGE c) * unat (of_nat ROW_SIZE :: u32) < 2 ^ LENGTH(32)"
    by (simp add: m unat_ROW_SIZE)
  then have "unat ((r mod ROWS_PER_PAGE c) * of_nat ROW_SIZE)
             = unat (r mod ROWS_PER_PAGE c) * unat (of_nat ROW_SIZE :: u32)"
    by (simp only: unat_mult_lem)
  then show ?thesis by (simp only: m unat_ROW_SIZE)
qed

lemma row_slot_eq:
  assumes "page_layout_ok c"
  shows "row_slot c table r =
     (case get_page (pager table) (r div ROWS_PER_PAGE c) of
        Inl e \<Rightarrow> Inl e
      | Inr pg \<Rightarrow> Inr (table\<lparr>pager := pg\<rparr>, slot_ptr c (unat r)))"
proof -
  from assms have "ROWS_PER_PAGE c \<noteq> 0"
    by (auto simp: page_layout_ok_def)
  moreover have "unat (r div ROWS_PER_PAGE c) = unat r div unat (ROWS_PER_PAGE c)"
    by (simp add: unat_div)
  ultimately show ?thesis
    by (simp add: row_slot_def Let_def ptr_add_def slot_ptr_def unat_byte_offset [OF assms]
        split: sum.splits)
qed

lemma get_page_cases:
  "get_page pg n =
     (if TABLE_MAX_PAGES \<le> unat n then Inl CapacityExhausted
      else Inr (pg\<lparr>pages := (pages pg)(unat n \<mapsto> page_after pg (unat n))\<rparr>))"
  by (auto simp: get_page_def page_after_def fun_upd_idem split: option.splits)

section \<open>Insertion\<close>

lemma page_in_cache:
  assumes ok: "limits_ok c" and lt: "n < unat (TABLE_MAX_ROWS c)"
  shows "n div unat (ROWS_PER_PAGE c) < TABLE_MAX_PAGES"
proof -
  from ok have pos: "0 < unat (ROWS_PER_PAGE c)"
    and le: "unat (TABLE_MAX_ROWS c) \<le> unat (ROWS_PER_PAGE c) * TABLE_MAX_PAGES"
    by (simp_all add: limits_ok_def page_layout_ok_def)
  from lt le have "n < TABLE_MAX_PAGES * unat (ROWS_PER_PAGE c)" by (simp add: mult.commute)
  with pos show ?thesis by (simp add: div_less_iff_less_mult)
qed

lemma unat_page_num:
  "unat (r div ROWS_PER_PAGE c) = unat r div unat (ROWS_PER_PAGE c)"
  by (simp add: unat_div)

lemma row_slot_in_cache:
  assumes ok: "limits_ok c" and lt: "unat r < unat (TABLE_MAX_ROWS c)"
  shows "row_slot c table r =
     Inr (table\<lparr>pager := (pager table)\<lparr>pages :=
            (pages (pager table))(fst (slot_ptr c (unat r)) \<mapsto>
               page_after (pager table) (fst (slot_ptr c (unat r))))\<rparr>\<rparr>,
          slot_ptr c (unat r))"
proof -
  from ok have lay: "page_layout_ok c" by (simp add: limits_ok_def)
  have "unat (r div ROWS_PER_PAGE c) < TABLE_MAX_PAGES"
    using page_in_cache [OF ok lt] by (simp add: unat_page_num)
  then show ?thesis
    by (simp add: row_slot_eq [OF lay] get_page_cases unat_page_num slot_ptr_def)
qed

lemma unat_succ_less: "(i :: u32) < n \<Longrightarrow> unat (i + 1) = Suc (unat i)"
proof -
  assume "i < n"
  then have "unat i < unat n" by (simp add: word_less_nat_alt)
  moreover have "unat n < 2 ^ 32" using unsigned_less [of n] by simp
  ultimately have "unat i + unat (1 :: u32) < 2 ^ LENGTH(32)" by simp
  then have "unat (i + 1) = unat i + unat (1 :: u32)" by (simp only: unat_add_lem)
  then show ?thesis by simp
qed

text \<open>What a successful insert leaves behind.\<close>

lemma execute_insert_success:
  assumes ok: "limits_ok c" and lt: "num_rows table < TABLE_MAX_ROWS c"
  shows "execute_insert c s table =
     Inr (EXECUTE_SUCCESS,
          \<lparr> pager = (pager table)\<lparr>pages :=
               serialize_row (row_to_insert s) (slot_ptr c (unat (num_rows table)))
                 ((pages (pager table))(fst (slot_ptr c (unat (num_rows table))) \<mapsto>
                    page_after (pager table) (fst (slot_ptr c (unat (num_rows table))))))\<rparr>,
            num_rows = num_rows table + 1 \<rparr>)"
proof -
  from lt have a: "\<not> TABLE_MAX_ROWS c \<le> num_rows table" by simp
  from lt have b: "unat (num_rows table) < unat (TABLE_MAX_ROWS c)"
    by (simp add: word_less_nat_alt)
  show ?thesis
    by (simp add: execute_insert_def a row_slot_in_cache [OF ok b] Let_def)
qed

lemma execute_insert_full:
  "TABLE_MAX_ROWS c \<le> num_rows table \<Longrightarrow>
   execute_insert c s table = Inr (EXECUTE_TABLE_FULL, table)"
  by (simp add: execute_insert_def)

lemma execute_insert_result:
  "execute_insert c s table = Inr (res, table1) \<Longrightarrow>
   (res = EXECUTE_TABLE_FULL \<and> TABLE_MAX_ROWS c \<le> num_rows table \<and> table1 = table) \<or>
   (res = EXECUTE_SUCCESS \<and> num_rows table < TABLE_MAX_ROWS c)"
  by (auto simp: execute_insert_def Let_def split: if_splits sum.splits)

lemma stored_insert:
  assumes ok: "limits_ok c" and st: "stored c table rs"
    and lt: "length rs < unat (TABLE_MAX_ROWS c)" and wf: "row_wf (row_to_insert s)"
  shows "\<exists>table1. execute_insert c s table = Inr (EXECUTE_SUCCESS, table1) \<and>
           stored c table1 (rs @ [row_to_insert s])"
proof -
  let ?n = "length rs"
  let ?k = "fst (slot_ptr c ?n)"
  let ?m1 = "(pages (pager table))(?k \<mapsto> page_after (pager table) ?k)"
  let ?m2 = "serialize_row (row_to_insert s) (slot_ptr c ?n) ?m1"
  let ?t1 = "\<lparr> pager = (pager table)\<lparr>pages := ?m2\<rparr>, num_rows = num_rows table + 1 \<rparr>"
  from st have un: "unat (num_rows table) = ?n" by (simp add: stored_def)
  from ok have pos: "0 < unat (ROWS_PER_PAGE c)"
    by (simp add: limits_ok_def page_layout_ok_def)
  from un lt have wlt: "num_rows table < TABLE_MAX_ROWS c" by (simp add: word_less_nat_alt)
  have ex: "execute_insert c s table = Inr (EXECUTE_SUCCESS, ?t1)"
    using execute_insert_success [OF ok wlt] by (simp add: un)
  have cnt: "unat (num_rows ?t1) = length (rs @ [row_to_insert s])"
    using unat_succ_less [OF wlt] un by simp
  have old: "pages (pager ?t1) (fst (slot_ptr c i)) \<noteq> None \<and>
             deserialize_row (pages (pager ?t1)) (slot_ptr c i) = (rs @ [row_to_insert s]) ! i"
    if i: "i < ?n" for i
  proof -
    from st i have c0: "pages (pager table) (fst (slot_ptr c i)) \<noteq> None"
      and d0: "deserialize_row (pages (pager table)) (slot_ptr c i) = rs ! i"
      by (simp_all add: stored_def)
    have same: "?m1 (fst (slot_ptr c i)) = pages (pager table) (fst (slot_ptr c i))"
      using c0 by (auto simp: page_after_def)
    from i have "i \<noteq> ?n" by simp
    then have dis: "regions_disjoint (slot_ptr c i) ROW_SIZE (slot_ptr c ?n) ROW_SIZE"
      by (rule slots_disjoint [OF pos])
    have "deserialize_row ?m2 (slot_ptr c i) = deserialize_row ?m1 (slot_ptr c i)"
      by (rule deserialize_row_frame [OF dis])
    also have "\<dots> = deserialize_row (pages (pager table)) (slot_ptr c i)"
      by (rule deserialize_row_cong) (rule same)
    finally have "deserialize_row ?m2 (slot_ptr c i) = rs ! i" using d0 by simp
    moreover have "?m2 (fst (slot_ptr c i)) \<noteq> None"
      using c0 same by (simp only: serialize_row_None_iff) simp
    ultimately show ?thesis using i by (simp add: nth_append)
  qed
  have new: "pages (pager ?t1) ?k \<noteq> None \<and>
             deserialize_row (pages (pager ?t1)) (slot_ptr c ?n) = row_to_insert s"
  proof -
    have c1: "?m1 (fst (slot_ptr c ?n)) \<noteq> None" by simp
    have "deserialize_row ?m2 (slot_ptr c ?n) = row_to_insert s"
      by (rule deserialize_serialize) (rule wf, rule c1)
    moreover have "?m2 ?k \<noteq> None" by (simp only: serialize_row_None_iff) simp
    ultimately show ?thesis by simp
  qed
  have "stored c ?t1 (rs @ [row_to_insert s])"
    unfolding stored_def
  proof (intro conjI allI impI)
    show "unat (num_rows ?t1) = length (rs @ [row_to_insert s])" by (rule cnt)
    show "length (rs @ [row_to_insert s]) \<le> unat (TABLE_MAX_ROWS c)" using lt by simp
  next
    fix i assume "i < length (rs @ [row_to_insert s])"
    then consider "i < ?n" | "i = ?n" by fastforce
    then show "pages (pager ?t1) (fst (slot_ptr c i)) \<noteq> None"
      using old new by cases auto
  next
    fix i assume "i < length (rs @ [row_to_insert s])"
    then consider "i < ?n" | "i = ?n" by fastforce
    then show "deserialize_row (pages (pager ?t1)) (slot_ptr c i) = (rs @ [row_to_insert s]) ! i"
    proof cases
      case 1 then show ?thesis using old by blast
    next
      case 2 then show ?thesis using new by simp
    qed
  qed
  with ex show ?thesis by blast
qed

section \<open>Selection and sessions\<close>

lemma row_slot_cached:
  assumes ok: "limits_ok c" and lt: "unat r < unat (TABLE_MAX_ROWS c)"
    and cached: "pages (pager table) (fst (slot_ptr c (unat r))) \<noteq> None"
  shows "row_slot c table r = Inr (table, slot_ptr c (unat r))"
proof -
  from cached have "(pages (pager table))(fst (slot_ptr c (unat r)) \<mapsto>
      page_after (pager table) (fst (slot_ptr c (unat r)))) = pages (pager table)"
    by (auto simp: page_after_def)
  then show ?thesis
    by (simp add: row_slot_in_cache [OF ok lt])
qed

lemma select_loop_stored:
  assumes ok: "limits_ok c" and st: "stored c table rs"
  shows "i \<le> length rs \<Longrightarrow> select_loop c (of_nat i) table out = Inr (out @ drop i rs, table)"
proof (induction "length rs - i" arbitrary: i out)
  case 0
  then have i: "i = length rs" by simp
  from st have "unat (num_rows table) = i" by (simp add: stored_def i)
  then have "of_nat i = num_rows table" by auto
  then show ?case
    by (subst select_loop.simps) (simp add: i)
next
  case (Suc k)
  then have i: "i < length rs" by simp
  from st have un: "unat (num_rows table) = length rs"
    and cap: "length rs \<le> unat (TABLE_MAX_ROWS c)" by (simp_all add: stored_def)
  have "unat (num_rows table) < 2 ^ 32" using unsigned_less [of "num_rows table"] by simp
  then have "length rs < 2 ^ 32" by (simp only: un)
  with i have ui: "unat (of_nat i :: u32) = i" by (simp add: unat_of_nat)
  with i un have lt: "(of_nat i :: u32) < num_rows table" by (simp add: word_less_nat_alt)
  from i cap have "unat (of_nat i :: u32) < unat (TABLE_MAX_ROWS c)" by (simp add: ui)
  moreover from st i have "pages (pager table) (fst (slot_ptr c (unat (of_nat i :: u32)))) \<noteq> None"
    by (simp add: stored_def ui)
  ultimately have slot: "row_slot c table (of_nat i) = Inr (table, slot_ptr c i)"
    using row_slot_cached [OF ok] ui by metis
  from st i have row: "deserialize_row (pages (pager table)) (slot_ptr c i) = rs ! i"
    by (simp add: stored_def)
  from Suc.hyps(2) have "k = length rs - Suc i" by simp
  moreover from i have "Suc i \<le> length rs" by simp
  ultimately have "select_loop c (of_nat (Suc i)) table (out @ [rs ! i])
      = Inr ((out @ [rs ! i]) @ drop (Suc i) rs, table)"
    by (rule Suc.hyps(1))
  moreover have "(of_nat i :: u32) + 1 = of_nat (Suc i)" by simp
  moreover have "(out @ [rs ! i]) @ drop (Suc i) rs = out @ drop i rs"
    using i by (simp add: Cons_nth_drop_Suc)
  ultimately have "select_loop c (of_nat i + 1) table (out @ [rs ! i]) = Inr (out @ drop i rs, table)"
    by (simp only:)
  then show ?case
    by (subst select_loop.simps) (simp add: lt slot row)
qed

lemma execute_select_stored:
  assumes "limits_ok c" and "stored c table rs"
  shows "execute_select c s table = Inr (EXECUTE_SUCCESS, rs, table)"
  using select_loop_stored [OF assms, of 0 "[]"] by (simp add: execute_select_def)

lemma execute_all_append:
  "execute_all c table (ss @ ss') =
     (case execute_all c table ss of
        Inl e \<Rightarrow> Inl e
      | Inr (o1, table1) \<Rightarrow>
          (case execute_all c table1 ss' of
             Inl e \<Rightarrow> Inl e
           | Inr (o2, table2) \<Rightarrow> Inr (o1 @ o2, table2)))"
  by (induction ss arbitrary: table) (auto split: sum.splits prod.splits)

lemma execute_statement_insert:
  "execute_statement c (insert_stmt r) table =
     (case execute_insert c (insert_stmt r) table of
        Inl e \<Rightarrow> Inl e
      | Inr (res, table1) \<Rightarrow> Inr (res, [], table1))"
  by (simp add: execute_statement_def insert_stmt_def)

lemma execute_statement_select:
  "execute_statement c (select_stmt r) table = execute_select c (select_stmt r) table"
  by (simp add: execute_statement_def select_stmt_def)

lemma execute_all_inserts_stored:
  assumes ok: "limits_ok c"
  shows "stored c table rs0 \<Longrightarrow> length rs0 + length rs \<le> unat (TABLE_MAX_ROWS c) \<Longrightarrow>
     \<forall>r \<in> set rs. row_wf r \<Longrightarrow>
     \<exists>table1. execute_all c table (map insert_stmt rs) =
                 Inr (map (\<lambda>_. (EXECUTE_SUCCESS, [])) rs, table1) \<and>
               stored c table1 (rs0 @ rs)"
proof (induction rs arbitrary: table rs0)
  case Nil
  then show ?case by simp
next
  case (Cons r rs)
  from Cons.prems have lt: "length rs0 < unat (TABLE_MAX_ROWS c)" by simp
  from Cons.prems have wf: "row_wf (row_to_insert (insert_stmt r))"
    by (simp add: insert_stmt_def)
  from stored_insert [OF ok Cons.prems(1) lt wf]
  obtain t1 where t1: "execute_insert c (insert_stmt r) table = Inr (EXECUTE_SUCCESS, t1)"
    and st1: "stored c t1 (rs0 @ [r])"
    by (auto simp: insert_stmt_def)
  from Cons.prems have "length (rs0 @ [r]) + length rs \<le> unat (TABLE_MAX_ROWS c)"
    and "\<forall>r \<in> set rs. row_wf r" by simp_all
  from Cons.IH [OF st1 this]
  obtain t2 where t2: "execute_all c t1 (map insert_stmt rs) =
        Inr (map (\<lambda>_. (EXECUTE_SUCCESS, [])) rs, t2)"
    and st2: "stored c t2 ((rs0 @ [r]) @ rs)" by blast
  show ?case
    using t1 t2 st2 by (simp add: execute_statement_insert)
qed

lemma execute_all_inserts_count:
  assumes ok: "limits_ok c"
  shows "unat (num_rows table) + length rs \<le> unat (TABLE_MAX_ROWS c) \<Longrightarrow>
     \<exists>table1. execute_all c table (map insert_stmt rs) =
                 Inr (map (\<lambda>_. (EXECUTE_SUCCESS, [])) rs, table1) \<and>
               unat (num_rows table1) = unat (num_rows table) + length rs"
proof (induction rs arbitrary: table)
  case Nil
  then show ?case by simp
next
  case (Cons r rs)
  from Cons.prems have lt: "num_rows table < TABLE_MAX_ROWS c"
    by (simp add: word_less_nat_alt)
  from execute_insert_success [OF ok lt]
  obtain t1 where t1: "execute_insert c (insert_stmt r) table = Inr (EXECUTE_SUCCESS, t1)"
    and n1: "num_rows t1 = num_rows table + 1"
    by simp
  from n1 have u1: "unat (num_rows t1) = Suc (unat (num_rows table))"
    using unat_succ_less [OF lt] by simp
  with Cons.prems have "unat (num_rows t1) + length rs \<le> unat (TABLE_MAX_ROWS c)" by simp
  from Cons.IH [OF this]
  obtain t2 where t2: "execute_all c t1 (map insert_stmt rs) =
        Inr (map (\<lambda>_. (EXECUTE_SUCCESS, [])) rs, t2)"
    and n2: "unat (num_rows t2) = unat (num_rows t1) + length rs" by blast
  show ?case
    using t1 t2 n2 u1 by (simp add: execute_statement_insert)
qed

lemma db_open_empty:
  "db_open None = Inr \<lparr> pager = \<lparr> file_descriptor = [], file_length = 0, pages = (\<lambda>_. None) \<rparr>, num_rows = 0 \<rparr>"
  "db_open (Some []) = Inr \<lparr> pager = \<lparr> file_descriptor = [], file_length = 0, pages = (\<lambda>_. None) \<rparr>, num_rows = 0 \<rparr>"
  by (simp_all add: db_open_def pager_open_def)

lemma stored_empty:
  "stored c \<lparr> pager = \<lparr> file_descriptor = [], file_length = 0, pages = (\<lambda>_. None) \<rparr>, num_rows = 0 \<rparr> []"
  by (simp add: stored_def)

lemma session_inserts_then_select:
  assumes ok: "limits_ok c" and len: "length rs \<le> unat (TABLE_MAX_ROWS c)"
    and wf: "\<forall>r \<in> set rs. row_wf r"
  shows "session c None (map insert_stmt rs @ [select_stmt r0]) =
     Inr (map (\<lambda>_. (EXECUTE_SUCCESS, [])) rs @ [(EXECUTE_SUCCESS, rs)])"
proof -
  let ?t0 = "\<lparr> pager = \<lparr> file_descriptor = [], file_length = 0, pages = (\<lambda>_. None) \<rparr>, num_rows = 0 \<rparr>"
  from len have "length ([] :: Row list) + length rs \<le> unat (TABLE_MAX_ROWS c)" by simp
  from execute_all_inserts_stored [OF ok stored_empty this wf]
  obtain t1 where t1: "execute_all c ?t0 (map insert_stmt rs) =
        Inr (map (\<lambda>_. (EXECUTE_SUCCESS, [])) rs, t1)"
    and st: "stored c t1 rs" by auto
  have "execute_select c (select_stmt r0) t1 = Inr (EXECUTE_SUCCESS, rs, t1)"
    by (rule execute_select_stored [OF ok st])
  then show ?thesis
    by (simp add: session_def db_open_empty execute_all_append t1 execute_statement_select)
qed

section \<open>The frame of an insert\<close>

lemma limits_ok_default: "limits_ok default_limits"
  by (simp add: limits_ok_def page_layout_ok_def default_limits_def ROW_SIZE_val
      PAGE_SIZE_def TABLE_MAX_PAGES_def)

lemma page_layout_ok_default: "page_layout_ok default_limits"
  using limits_ok_default by (simp add: limits_ok_def)

lemma slot_bytes_eq:
  assumes "page_layout_ok c"
  shows "slot_bytes c table r =
     (if TABLE_MAX_PAGES \<le> fst (slot_ptr c (unat r)) then None
      else Some (read_page (page_after (pager table) (fst (slot_ptr c (unat r))))
                   (snd (slot_ptr c (unat r))) ROW_SIZE))"
  by (simp add: slot_bytes_def row_slot_eq [OF assms] get_page_cases unat_page_num
      slot_ptr_def memcpy_from_def)

lemma read_page_after_insert:
  assumes pos: "0 < unat (ROWS_PER_PAGE c)" and ne: "i \<noteq> n"
    and fd: "file_descriptor pg1 = file_descriptor pg"
    and pgs: "pages pg1 = serialize_row r (slot_ptr c n)
                ((pages pg)(fst (slot_ptr c n) \<mapsto> page_after pg (fst (slot_ptr c n))))"
  shows "read_page (page_after pg1 (fst (slot_ptr c i))) (snd (slot_ptr c i)) ROW_SIZE =
         read_page (page_after pg (fst (slot_ptr c i))) (snd (slot_ptr c i)) ROW_SIZE"
proof (cases "fst (slot_ptr c i) = fst (slot_ptr c n)")
  case False
  then have "pages pg1 (fst (slot_ptr c i)) = pages pg (fst (slot_ptr c i))"
    by (simp add: pgs serialize_row_other)
  then show ?thesis by (simp add: page_after_def fd split: option.splits)
next
  case True
  let ?k = "fst (slot_ptr c n)"
  let ?m1 = "(pages pg)(?k \<mapsto> page_after pg ?k)"
  have dis: "regions_disjoint (slot_ptr c i) ROW_SIZE (slot_ptr c n) ROW_SIZE"
    by (rule slots_disjoint [OF pos ne])
  have "pages pg1 ?k \<noteq> None" by (simp only: pgs serialize_row_None_iff) simp
  then obtain P where P: "pages pg1 ?k = Some P" by blast
  then have "read_page (page_after pg1 ?k) (snd (slot_ptr c i)) ROW_SIZE
      = memcpy_from (pages pg1) (slot_ptr c i) ROW_SIZE"
    by (simp add: page_after_def memcpy_from_def True)
  also have "\<dots> = memcpy_from ?m1 (slot_ptr c i) ROW_SIZE"
    unfolding pgs by (rule serialize_row_frame [OF dis])
  also have "\<dots> = read_page (page_after pg ?k) (snd (slot_ptr c i)) ROW_SIZE"
    by (simp add: memcpy_from_def True)
  finally show ?thesis by (simp add: True)
qed


lemma execute_insert_success_layout:
  assumes lay: "page_layout_ok c" and ex: "execute_insert c s table = Inr (EXECUTE_SUCCESS, table1)"
  shows "num_rows table < TABLE_MAX_ROWS c \<and>
     table1 = \<lparr> pager = (pager table)\<lparr>pages :=
               serialize_row (row_to_insert s) (slot_ptr c (unat (num_rows table)))
                 ((pages (pager table))(fst (slot_ptr c (unat (num_rows table))) \<mapsto>
                    page_after (pager table) (fst (slot_ptr c (unat (num_rows table))))))\<rparr>,
            num_rows = num_rows table + 1 \<rparr>"
  using ex
  by (auto simp: execute_insert_def row_slot_eq [OF lay] get_page_cases Let_def unat_page_num
      slot_ptr_def split: if_splits sum.splits)

section \<open>Statement preparation\<close>

lemma prepare_never_validates:
  "prepare_statement buffer statement \<noteq> Returned PREPARE_NEGATIVE_ID st \<and>
   prepare_statement buffer statement \<noteq> Returned PREPARE_STRING_TOO_LONG st"
  by (auto simp: prepare_statement_def Let_def split: option.splits if_splits)

lemma prepare_long_username:
  "prepare_statement ''insert 1 aaaaaaaaaaaaaaaaaaaaaaaaaaaaaaaaaaaaaaaa a@example.com''
     (select_stmt (mk_row 0 [] [])) = Undefined_Behaviour"
  by code_simp

section \<open>Binary search and descent\<close>

lemma leaf_node_search_bounds:
  shows "sorted_wrt (<) ks \<Longrightarrow> lo \<le> hi \<Longrightarrow> hi \<le> length ks \<Longrightarrow>
     \<forall>j<lo. ks ! j < K \<Longrightarrow> \<forall>j. hi \<le> j \<and> j < length ks \<longrightarrow> K < ks ! j \<Longrightarrow>
     leaf_node_search ks K lo hi \<le> length ks \<and>
     (\<forall>j<leaf_node_search ks K lo hi. ks ! j < K) \<and>
     (\<forall>j. leaf_node_search ks K lo hi < j \<and> j < length ks \<longrightarrow> K < ks ! j) \<and>
     (leaf_node_search ks K lo hi < length ks \<longrightarrow> K \<le> ks ! leaf_node_search ks K lo hi)"
proof (induction ks K lo hi rule: leaf_node_search.induct)
  case (1 keys key lo hi)
  let ?m = "(lo + hi) div 2"
  show ?case
  proof (cases "lo < hi")
    case False
    then have eq: "leaf_node_search keys key lo hi = lo"
      by (simp add: leaf_node_search.simps [of keys key lo hi])
    from False "1.prems" have "lo = hi" by simp
    with eq "1.prems" show ?thesis
      by (auto simp: order_less_imp_le)
  next
    case True
    then have m: "lo \<le> ?m" "?m < hi" by simp_all
    with "1.prems" have ml: "?m < length keys" by simp
    have mono: "keys ! a < keys ! b" if "a < b" "b < length keys" for a b
      using that "1.prems"(1) sorted_wrt_nth_less [of "(<)" keys a b] by simp
    consider (eq) "key = keys ! ?m" | (lt) "key < keys ! ?m" | (gt) "keys ! ?m < key"
      by fastforce
    then show ?thesis
    proof cases
      case eq
      have r: "leaf_node_search keys key lo hi = ?m"
        using True eq by (subst leaf_node_search.simps) (simp add: Let_def)
      show ?thesis
        unfolding r using eq ml mono by auto
    next
      case lt
      then have ne: "key \<noteq> keys ! ?m" by simp
      have r: "leaf_node_search keys key lo hi = leaf_node_search keys key lo ?m"
        using True lt ne by (subst leaf_node_search.simps) (simp add: Let_def)
      have above: "\<forall>j. ?m \<le> j \<and> j < length keys \<longrightarrow> key < keys ! j"
      proof (intro allI impI)
        fix j assume j: "?m \<le> j \<and> j < length keys"
        show "key < keys ! j"
        proof (cases "j = ?m")
          case True then show ?thesis using lt by simp
        next
          case False
          with j have "keys ! ?m < keys ! j" by (intro mono) simp_all
          with lt show ?thesis by simp
        qed
      qed
      have "?m \<le> length keys" using ml by simp
      from "1.IH"(1) [OF True refl refl ne lt "1.prems"(1) m(1) this "1.prems"(4) above]
      show ?thesis unfolding r .
    next
      case gt
      then have ne: "key \<noteq> keys ! ?m" and nlt: "\<not> key < keys ! ?m" by simp_all
      have r: "leaf_node_search keys key lo hi = leaf_node_search keys key (?m + 1) hi"
        using True ne nlt by (subst leaf_node_search.simps) (simp add: Let_def)
      have below: "\<forall>j<?m + 1. keys ! j < key"
      proof (intro allI impI)
        fix j assume j: "j < ?m + 1"
        show "keys ! j < key"
        proof (cases "j = ?m")
          case True then show ?thesis using gt by simp
        next
          case False
          with j have "keys ! j < keys ! ?m" using ml by (intro mono) simp_all
          with gt show ?thesis by simp
        qed
      qed
      from m have "?m + 1 \<le> hi" by simp
      from "1.IH"(2) [OF True refl refl ne nlt "1.prems"(1) this "1.prems"(3) below "1.prems"(5)]
      show ?thesis unfolding r .
    qed
  qed
qed

lemma internal_node_search_bounds:
  shows "sorted_wrt (<) ks \<Longrightarrow> lo \<le> hi \<Longrightarrow> hi \<le> length ks \<Longrightarrow>
     \<forall>j<lo. ks ! j < K \<Longrightarrow> \<forall>j. hi \<le> j \<and> j < length ks \<longrightarrow> K \<le> ks ! j \<Longrightarrow>
     internal_node_search ks K lo hi \<le> length ks \<and>
     (\<forall>j<internal_node_search ks K lo hi. ks ! j < K) \<and>
     (\<forall>j. internal_node_search ks K lo hi \<le> j \<and> j < length ks \<longrightarrow> K \<le> ks ! j)"
proof (induction ks K lo hi rule: internal_node_search.induct)
  case (1 keys key lo hi)
  let ?m = "(lo + hi) div 2"
  show ?case
  proof (cases "lo < hi")
    case False
    then have eq: "internal_node_search keys key lo hi = lo"
      by (simp add: internal_node_search.simps [of keys key lo hi])
    from False "1.prems" have "lo = hi" by simp
    with eq "1.prems" show ?thesis by auto
  next
    case True
    then have m: "lo \<le> ?m" "?m < hi" by simp_all
    with "1.prems" have ml: "?m < length keys" by simp
    have mono: "keys ! a < keys ! b" if "a < b" "b < length keys" for a b
      using that "1.prems"(1) sorted_wrt_nth_less [of "(<)" keys a b] by simp
    show ?thesis
    proof (cases "key \<le> keys ! ?m")
      case le: True
      have r: "internal_node_search keys key lo hi = internal_node_search keys key lo ?m"
        using True le by (subst internal_node_search.simps) (simp add: Let_def)
      have above: "\<forall>j. ?m \<le> j \<and> j < length keys \<longrightarrow> key \<le> keys ! j"
      proof (intro allI impI)
        fix j assume j: "?m \<le> j \<and> j < length keys"
        show "key \<le> keys ! j"
        proof (cases "j = ?m")
          case True then show ?thesis using le by simp
        next
          case False
          with j have "keys ! ?m < keys ! j" by (intro mono) simp_all
          with le show ?thesis by simp
        qed
      qed
      have "?m \<le> length keys" using ml by simp
      from "1.IH"(1) [OF True refl refl le "1.prems"(1) m(1) this "1.prems"(4) above]
      show ?thesis unfolding r .
    next
      case gt: False
      have r: "internal_node_search keys key lo hi = internal_node_search keys key (?m + 1) hi"
        using True gt by (subst internal_node_search.simps) (simp add: Let_def)
      have below: "\<forall>j<?m + 1. keys ! j < key"
      proof (intro allI impI)
        fix j assume j: "j < ?m + 1"
        show "keys ! j < key"
        proof (cases "j = ?m")
          case True then show ?thesis using gt by simp
        next
          case False
          with j have "keys ! j < keys ! ?m" using ml by (intro mono) simp_all
          with gt show ?thesis by simp
        qed
      qed
      from m have "?m + 1 \<le> hi" by simp
      from "1.IH"(2) [OF True refl refl gt "1.prems"(1) this "1.prems"(3) below "1.prems"(5)]
      show ?thesis unfolding r .
    qed
  qed
qed

lemma leaf_keys_append [simp]: "leaf_keys (a @ b) = leaf_keys a @ leaf_keys b"
  by (simp add: leaf_keys_def)

lemma leaf_keys_single [simp]: "leaf_keys [(pn, cells)] = map fst cells"
  by (simp add: leaf_keys_def)

lemma leaf_keys_Nil [simp]: "leaf_keys [] = []"
  by (simp add: leaf_keys_def)

lemma set_leaf_keys_children:
  "set (leaf_keys (concat (map (\<lambda>c. leaf_nodes (snd c)) cs))) = (\<Union>c \<in> set cs. set (all_keys (snd c)))"
  by (induction cs) (simp_all add: all_keys_def)

lemma table_find_internal:
  "i = internal_node_search (map fst cells) key 0 (length cells) \<Longrightarrow>
   table_find (NODE_INTERNAL pn cells right) key = table_find (child_at cells right i) key"
  by simp

lemma leaf_nodes_split:
  assumes "i < length cells"
  shows "leaf_nodes (NODE_INTERNAL pn cells right) =
     concat (map (\<lambda>c. leaf_nodes (snd c)) (take i cells)) @ leaf_nodes (snd (cells ! i)) @
     (concat (map (\<lambda>c. leaf_nodes (snd c)) (drop (Suc i) cells)) @ leaf_nodes right)"
  by (subst id_take_nth_drop [OF assms]) simp

text \<open>The routing keys of an internal node are strictly increasing.\<close>

lemma routing_key_in_child:
  assumes "routing_ok (NODE_INTERNAL pn cells right)" and "c \<in> set cells"
  shows "fst c \<in> set (all_keys (snd c))" and "\<forall>k \<in> set (all_keys (snd c)). k \<le> fst c"
proof -
  from assms have ne: "set (all_keys (snd c)) \<noteq> {}" and mx: "fst c = Max (set (all_keys (snd c)))"
    by auto
  from ne show "fst c \<in> set (all_keys (snd c))" unfolding mx by (intro Max_in) simp_all
  show "\<forall>k \<in> set (all_keys (snd c)). k \<le> fst c" unfolding mx by simp
qed

lemma sorted_blocks:
  assumes "sorted_wrt (<) (leaf_keys (concat (map (\<lambda>c. leaf_nodes (snd c)) cells)) @ rest)"
    and "a < b" "b < length cells"
    and "x \<in> set (all_keys (snd (cells ! a)))" "y \<in> set (all_keys (snd (cells ! b)))"
  shows "x < (y :: u32)"
proof -
  let ?f = "\<lambda>c. leaf_nodes (snd c)"
  have "concat (map ?f (take b cells)) @ concat (map ?f (drop b cells)) = concat (map ?f cells)"
    by (simp only: concat_append [symmetric] map_append [symmetric] append_take_drop_id)
  then have "leaf_keys (concat (map ?f cells)) =
      leaf_keys (concat (map ?f (take b cells))) @ leaf_keys (concat (map ?f (drop b cells)))"
    by (simp only: leaf_keys_append [symmetric])
  with assms(1) have "sorted_wrt (<) (leaf_keys (concat (map ?f (take b cells))) @
        leaf_keys (concat (map ?f (drop b cells))) @ rest)"
    by simp
  then have cross: "\<forall>u \<in> set (leaf_keys (concat (map ?f (take b cells)))).
      \<forall>v \<in> set (leaf_keys (concat (map ?f (drop b cells)))). u < v"
    by (auto simp: sorted_wrt_append)
  from assms(2,3) have "take b cells ! a = cells ! a" and "a < length (take b cells)" by simp_all
  then have "cells ! a \<in> set (take b cells)" by (metis nth_mem)
  with assms(4) have "x \<in> set (leaf_keys (concat (map ?f (take b cells))))"
    unfolding set_leaf_keys_children by blast
  moreover from assms(3) have "drop b cells = cells ! b # drop (Suc b) cells"
    by (simp add: Cons_nth_drop_Suc)
  then have "cells ! b \<in> set (drop b cells)" by simp
  with assms(5) have "y \<in> set (leaf_keys (concat (map ?f (drop b cells))))"
    unfolding set_leaf_keys_children by blast
  ultimately show ?thesis using cross by blast
qed

lemma routing_keys_sorted:
  assumes inv: "btree_inv (NODE_INTERNAL pn cells right)"
  shows "sorted_wrt (<) (map fst cells)"
proof -
  from inv have srt: "sorted_wrt (<)
      (leaf_keys (concat (map (\<lambda>c. leaf_nodes (snd c)) cells)) @ leaf_keys (leaf_nodes right))"
    and rt: "routing_ok (NODE_INTERNAL pn cells right)"
    by (simp_all add: btree_inv_def all_keys_def)
  have "map fst cells ! a < map fst cells ! b" if "a < b" "b < length (map fst cells)" for a b
  proof -
    from that have la: "a < length cells" and lb: "b < length cells" by simp_all
    then have "fst (cells ! a) \<in> set (all_keys (snd (cells ! a)))"
      and "fst (cells ! b) \<in> set (all_keys (snd (cells ! b)))"
      using routing_key_in_child(1) [OF rt] by simp_all
    with srt that(1) lb have "fst (cells ! a) < fst (cells ! b)" by (rule sorted_blocks)
    with la lb show ?thesis by simp
  qed
  then show ?thesis by (simp add: sorted_wrt_iff_nth_less)
qed

lemma keys_left_of_child:
  assumes rt: "routing_ok (NODE_INTERNAL pn cells right)"
    and below: "\<forall>j<i. map fst cells ! j < K" and i: "i \<le> length cells"
  shows "\<forall>k \<in> set (leaf_keys (concat (map (\<lambda>c. leaf_nodes (snd c)) (take i cells)))). k < K"
proof
  fix k assume "k \<in> set (leaf_keys (concat (map (\<lambda>c. leaf_nodes (snd c)) (take i cells))))"
  then obtain c where c: "c \<in> set (take i cells)" and k: "k \<in> set (all_keys (snd c))"
    unfolding set_leaf_keys_children by blast
  from c obtain j where j: "j < length (take i cells)" and cj: "take i cells ! j = c"
    by (auto simp: in_set_conv_nth)
  from j i have ji: "j < i" and jl: "j < length cells" by simp_all
  with cj have cc: "c = cells ! j" by simp
  then have "c \<in> set cells" using jl by simp
  with rt k have "k \<le> fst c" using routing_key_in_child(2) by blast
  moreover from below ji have "map fst cells ! j < K" by blast
  with jl have "fst c < K" by (simp add: cc)
  ultimately show "k < K" by simp
qed

lemma table_find_descent:
  "btree_inv t \<Longrightarrow>
   \<exists>pre cells post.
     leaf_nodes t = pre @ [(page_num (table_find t K), cells)] @ post \<and>
     cell_num (table_find t K) = leaf_node_search (map fst cells) K 0 (length cells) \<and>
     (\<forall>k \<in> set (leaf_keys pre). k < K) \<and> (\<forall>k \<in> set (leaf_keys post). K < k)"
proof (induction t)
  case (NODE_LEAF pn cells)
  have "leaf_nodes (NODE_LEAF pn cells) = [] @ [(page_num (table_find (NODE_LEAF pn cells) K), cells)] @ []"
    by (simp add: leaf_node_find_def)
  moreover have "cell_num (table_find (NODE_LEAF pn cells) K) = leaf_node_search (map fst cells) K 0 (length cells)"
    by (simp add: leaf_node_find_def)
  ultimately show ?case by (metis empty_iff leaf_keys_Nil list.set(1))
next
  case (NODE_INTERNAL pn cells right)
  let ?f = "\<lambda>c. leaf_nodes (snd c)"
  let ?t = "NODE_INTERNAL pn cells right"
  let ?ks = "map fst cells"
  let ?i = "internal_node_search ?ks K 0 (length cells)"
  let ?A = "concat (map ?f (take ?i cells))"
  from NODE_INTERNAL.prems have rt: "routing_ok ?t" and srt: "sorted_wrt (<) (all_keys ?t)"
    by (simp_all add: btree_inv_def)
  have sk: "sorted_wrt (<) ?ks" by (rule routing_keys_sorted [OF NODE_INTERNAL.prems])
  have "?i \<le> length ?ks \<and> (\<forall>j<?i. ?ks ! j < K) \<and>
     (\<forall>j. ?i \<le> j \<and> j < length ?ks \<longrightarrow> K \<le> ?ks ! j)"
    by (rule internal_node_search_bounds [OF sk]) auto
  then have il: "?i \<le> length ?ks" and below: "\<forall>j<?i. ?ks ! j < K"
    and above': "\<forall>j. ?i \<le> j \<and> j < length ?ks \<longrightarrow> K \<le> ?ks ! j"
    by blast+
  from il have il: "?i \<le> length cells" by simp
  from above' have above: "\<forall>j. ?i \<le> j \<and> j < length cells \<longrightarrow> K \<le> fst (cells ! j)"
    by simp
  have left: "\<forall>k \<in> set (leaf_keys ?A). k < K"
    by (rule keys_left_of_child [OF rt below il])
  have tf: "table_find ?t K = table_find (child_at cells right ?i) K" by simp
  show ?case
  proof (cases "?i < length cells")
    case True
    let ?c = "snd (cells ! ?i)"
    let ?B = "concat (map ?f (drop (Suc ?i) cells)) @ leaf_nodes right"
    have ln: "leaf_nodes ?t = ?A @ leaf_nodes ?c @ ?B" by (rule leaf_nodes_split [OF True])
    then have ak: "all_keys ?t = leaf_keys ?A @ all_keys ?c @ leaf_keys ?B"
      by (simp add: all_keys_def)
    from True have mem: "cells ! ?i \<in> set cells" by simp
    from srt have "sorted_wrt (<) (all_keys ?c)" unfolding ak by (simp add: sorted_wrt_append)
    moreover from rt mem have "routing_ok ?c" by auto
    ultimately have "btree_inv ?c" by (simp add: btree_inv_def)
    moreover have "?c \<in> Basic_BNFs.snds (cells ! ?i)" by (cases "cells ! ?i") simp
    ultimately obtain pre cs post where
      l: "leaf_nodes ?c = pre @ [(page_num (table_find ?c K), cs)] @ post"
      and n: "cell_num (table_find ?c K) = leaf_node_search (map fst cs) K 0 (length cs)"
      and p: "\<forall>k \<in> set (leaf_keys pre). k < K" and q: "\<forall>k \<in> set (leaf_keys post). K < k"
      using NODE_INTERNAL.IH(1) [OF mem] by blast
    from True have ch: "child_at cells right ?i = ?c" by (simp add: child_at_def)
    have right_keys: "\<forall>k \<in> set (leaf_keys ?B). K < k"
    proof
      fix k assume k: "k \<in> set (leaf_keys ?B)"
      from rt mem have "fst (cells ! ?i) \<in> set (all_keys ?c)"
        by (rule routing_key_in_child(1))
      with srt k have "fst (cells ! ?i) < k" unfolding ak by (auto simp: sorted_wrt_append)
      moreover from above True have "K \<le> fst (cells ! ?i)" by blast
      ultimately show "K < k" by simp
    qed
    have "leaf_nodes ?t = (?A @ pre) @ [(page_num (table_find ?t K), cs)] @ (post @ ?B)"
      unfolding ln l tf ch by simp
    moreover have "cell_num (table_find ?t K) = leaf_node_search (map fst cs) K 0 (length cs)"
      unfolding tf ch by (rule n)
    moreover have "\<forall>k \<in> set (leaf_keys (?A @ pre)). k < K" using left p by auto
    moreover have "\<forall>k \<in> set (leaf_keys (post @ ?B)). K < k" using right_keys q by auto
    ultimately show ?thesis by blast
  next
    case False
    with il have ie: "?i = length cells" by simp
    then have ch: "child_at cells right ?i = right" by (simp add: child_at_def)
    have ln: "leaf_nodes ?t = ?A @ leaf_nodes right" by (simp add: ie)
    then have ak: "all_keys ?t = leaf_keys ?A @ all_keys right" by (simp add: all_keys_def)
    from srt have "sorted_wrt (<) (all_keys right)" unfolding ak by (simp add: sorted_wrt_append)
    moreover from rt have "routing_ok right" by simp
    ultimately have "btree_inv right" by (simp add: btree_inv_def)
    then obtain pre cs post where
      l: "leaf_nodes right = pre @ [(page_num (table_find right K), cs)] @ post"
      and n: "cell_num (table_find right K) = leaf_node_search (map fst cs) K 0 (length cs)"
      and p: "\<forall>k \<in> set (leaf_keys pre). k < K" and q: "\<forall>k \<in> set (leaf_keys post). K < k"
      using NODE_INTERNAL.IH(2) by blast
    have "leaf_nodes ?t = (?A @ pre) @ [(page_num (table_find ?t K), cs)] @ post"
      unfolding ln l tf ch by simp
    moreover have "cell_num (table_find ?t K) = leaf_node_search (map fst cs) K 0 (length cs)"
      unfolding tf ch by (rule n)
    moreover have "\<forall>k \<in> set (leaf_keys (?A @ pre)). k < K" using left p by auto
    ultimately show ?thesis using q by blast
  qed
qed

lemma leaf_position:
  assumes srt: "sorted_wrt (<) (P @ ks @ Q)"
    and p: "\<forall>k \<in> set P. k < K" and q: "\<forall>k \<in> set Q. K < k"
  shows "leaf_node_search ks K 0 (length ks) \<le> length ks"
    and "K \<in> set (P @ ks @ Q) \<Longrightarrow>
         leaf_node_search ks K 0 (length ks) < length ks \<and> ks ! leaf_node_search ks K 0 (length ks) = K"
    and "K \<notin> set (P @ ks @ Q) \<Longrightarrow>
         sorted_wrt (<) (P @ take (leaf_node_search ks K 0 (length ks)) ks @ [K] @
                          drop (leaf_node_search ks K 0 (length ks)) ks @ Q)"
proof -
  let ?r = "leaf_node_search ks K 0 (length ks)"
  from srt have sk: "sorted_wrt (<) ks" by (simp add: sorted_wrt_append)
  have "?r \<le> length ks \<and> (\<forall>j<?r. ks ! j < K) \<and>
        (\<forall>j. ?r < j \<and> j < length ks \<longrightarrow> K < ks ! j) \<and> (?r < length ks \<longrightarrow> K \<le> ks ! ?r)"
    by (rule leaf_node_search_bounds [OF sk]) auto
  then have rl: "?r \<le> length ks" and lo: "\<forall>j<?r. ks ! j < K"
    and hi: "\<forall>j. ?r < j \<and> j < length ks \<longrightarrow> K < ks ! j"
    and at: "?r < length ks \<longrightarrow> K \<le> ks ! ?r"
    by blast+
  show "?r \<le> length ks" by (rule rl)
  show "?r < length ks \<and> ks ! ?r = K" if "K \<in> set (P @ ks @ Q)"
  proof -
    from that p q have "K \<in> set ks" by auto
    then obtain m where m: "m < length ks" "ks ! m = K" by (auto simp: in_set_conv_nth)
    have "\<not> m < ?r" using lo m by auto
    moreover have "\<not> ?r < m" using hi m by auto
    ultimately have "m = ?r" by simp
    with m show ?thesis by simp
  qed
  show "sorted_wrt (<) (P @ take ?r ks @ [K] @ drop ?r ks @ Q)" if "K \<notin> set (P @ ks @ Q)"
  proof -
    from that have nk: "K \<notin> set ks" by simp
    have before: "\<forall>x \<in> set (take ?r ks). x < K"
    proof
      fix x assume "x \<in> set (take ?r ks)"
      then obtain j where "j < length (take ?r ks)" "take ?r ks ! j = x"
        by (auto simp: in_set_conv_nth)
      then have "j < ?r" "x = ks ! j" by simp_all
      with lo show "x < K" by simp
    qed
    have after: "\<forall>x \<in> set (drop ?r ks). K < x"
    proof
      fix x assume "x \<in> set (drop ?r ks)"
      then obtain j where j: "j < length (drop ?r ks)" "drop ?r ks ! j = x"
        by (auto simp: in_set_conv_nth)
      then have jl: "?r + j < length ks" and x: "x = ks ! (?r + j)" by simp_all
      show "K < x"
      proof (cases j)
        case 0
        with jl at have "K \<le> ks ! ?r" by simp
        moreover from jl 0 nk have "ks ! ?r \<noteq> K" by (metis add.right_neutral nth_mem)
        ultimately show ?thesis using 0 x by simp
      next
        case (Suc n)
        with jl hi have "K < ks ! (?r + j)" by simp
        then show ?thesis by (simp add: x)
      qed
    qed
    have "P @ ks @ Q = P @ take ?r ks @ drop ?r ks @ Q" by simp
    with srt have s2: "sorted_wrt (<) (P @ take ?r ks @ drop ?r ks @ Q)" by (simp only:)
    show ?thesis
      using s2 p q before after by (auto simp: sorted_wrt_append)
  qed
qed

section \<open>The claims of the specification\<close>

text \<open>
  C1, as amended. \<^verbatim>\<open>execute_insert\<close> appends at slot \<^verbatim>\<open>num_rows\<close> and
  \<^verbatim>\<open>execute_select\<close> reads the slots from 0 upwards, so a full scan after a sequence of
  successful inserts into an empty table yields the inserted rows in the order of their
  insertion, each with its original field values, whatever their keys. The rows have
  arrays of the declared sizes, and at most \<^verbatim>\<open>TABLE_MAX_ROWS\<close> rows are inserted.
\<close>

theorem scan_yields_insertion_order:
  assumes "limits_ok c" and "length rs \<le> unat (TABLE_MAX_ROWS c)"
    and "\<forall>r \<in> set rs. row_wf r"
  shows "session c None (map insert_stmt rs @ [select_stmt r0]) =
     Inr (map (\<lambda>_. (EXECUTE_SUCCESS, [])) rs @ [(EXECUTE_SUCCESS, rs)])"
  using assms by (rule session_inserts_then_select)

theorem scan_yields_insertion_order_witness:
  "limits_ok default_limits \<and>
   session default_limits None
     (map insert_stmt [mk_row 3 ''carol'' ''carol@example.com'',
                       mk_row 1 ''alice'' ''alice@example.com'',
                       mk_row 2 ''bob'' ''bob@example.com'']
      @ [select_stmt (mk_row 0 [] [])]) =
   Inr (map (\<lambda>_. (EXECUTE_SUCCESS, []))
          [mk_row 3 ''carol'' ''carol@example.com'',
           mk_row 1 ''alice'' ''alice@example.com'',
           mk_row 2 ''bob'' ''bob@example.com'']
        @ [(EXECUTE_SUCCESS,
            [mk_row 3 ''carol'' ''carol@example.com'',
             mk_row 1 ''alice'' ''alice@example.com'',
             mk_row 2 ''bob'' ''bob@example.com''])])"
proof -
  let ?rs = "[mk_row 3 ''carol'' ''carol@example.com'',
              mk_row 1 ''alice'' ''alice@example.com'',
              mk_row 2 ''bob'' ''bob@example.com'']"
  have len: "length ?rs \<le> unat (TABLE_MAX_ROWS default_limits)"
    by (simp add: default_limits_def)
  have wf: "\<forall>r \<in> set ?rs. row_wf r"
    by (simp add: row_wf_mk_row)
  show ?thesis
    using limits_ok_default scan_yields_insertion_order [OF limits_ok_default len wf]
    by (simp only: simp_thms)
qed

text \<open>
  C1 as stated fails: after inserting the keys 3, 1, 2 the scan yields the keys
  3, 1, 2, not 1, 2, 3.
\<close>

theorem scan_sorted_counterexample:
  "session default_limits None
     [insert_stmt (mk_row 3 ''carol'' ''carol@example.com''),
      insert_stmt (mk_row 1 ''alice'' ''alice@example.com''),
      insert_stmt (mk_row 2 ''bob'' ''bob@example.com''),
      select_stmt (mk_row 0 [] [])] =
   Inr [(EXECUTE_SUCCESS, []), (EXECUTE_SUCCESS, []), (EXECUTE_SUCCESS, []),
        (EXECUTE_SUCCESS,
         [mk_row 3 ''carol'' ''carol@example.com'',
          mk_row 1 ''alice'' ''alice@example.com'',
          mk_row 2 ''bob'' ''bob@example.com''])] \<and>
   map id [mk_row 3 ''carol'' ''carol@example.com'',
           mk_row 1 ''alice'' ''alice@example.com'',
           mk_row 2 ''bob'' ''bob@example.com''] = [3, 1, 2] \<and>
   [3, 1, 2] \<noteq> [1, 2, 3 :: u32]"
proof -
  let ?rs = "[mk_row 3 ''carol'' ''carol@example.com'',
              mk_row 1 ''alice'' ''alice@example.com'',
              mk_row 2 ''bob'' ''bob@example.com'']"
  have len: "length ?rs \<le> unat (TABLE_MAX_ROWS default_limits)"
    by (simp add: default_limits_def)
  have wf: "\<forall>r \<in> set ?rs. row_wf r"
    by (simp add: row_wf_mk_row)
  have ids: "map id ?rs = [3, 1, 2]" by (simp add: mk_row_def)
  show ?thesis
    using session_inserts_then_select [OF limits_ok_default len wf, of "mk_row 0 [] []"] ids
    by simp
qed

text \<open>
  C2. Round trip of the row codec: for every row whose two arrays have their declared
  sizes, \<^verbatim>\<open>deserialize_row\<close> applied to the bytes that \<^verbatim>\<open>serialize_row\<close> wrote at a
  destination inside an allocated page buffer yields the row again.
\<close>

theorem deserialize_serialize_roundtrip:
  "row_wf r \<Longrightarrow> m (fst destination) \<noteq> None \<Longrightarrow>
   deserialize_row (serialize_row r destination m) destination = r"
  by (rule deserialize_serialize)

theorem deserialize_serialize_roundtrip_witness:
  "row_wf (mk_row 7 ''alice'' ''alice@example.com'') \<and>
   deserialize_row
     (serialize_row (mk_row 7 ''alice'' ''alice@example.com'') (0, 293)
        ((\<lambda>_. None)(0 \<mapsto> (\<lambda>_. 0))))
     (0, 293) = mk_row 7 ''alice'' ''alice@example.com''"
proof -
  have wf: "row_wf (mk_row 7 ''alice'' ''alice@example.com'')"
    by (simp add: row_wf_def mk_row_def c_string_def layout_defs)
  show ?thesis
    using wf deserialize_serialize_roundtrip
      [of "mk_row 7 ''alice'' ''alice@example.com''" "(\<lambda>_. None)(0 \<mapsto> (\<lambda>_. 0))" "(0, 293)"]
    by simp
qed




text \<open>
  C4. Capacity boundary: starting from the empty table, \<^verbatim>\<open>TABLE_MAX_ROWS\<close> inserts all
  return \<^verbatim>\<open>EXECUTE_SUCCESS\<close> and the next insert returns \<^verbatim>\<open>EXECUTE_TABLE_FULL\<close>; an
  insert that returns \<^verbatim>\<open>EXECUTE_TABLE_FULL\<close> returns the table it was given, unchanged.
\<close>

theorem insert_capacity_boundary:
  assumes ok: "limits_ok c" and len: "length rs = unat (TABLE_MAX_ROWS c)"
  shows "session c None (map insert_stmt rs @ [insert_stmt r]) =
           Inr (map (\<lambda>_. (EXECUTE_SUCCESS, [])) rs @ [(EXECUTE_TABLE_FULL, [])]) \<and>
         (\<forall>s table table1.
            execute_insert c s table = Inr (EXECUTE_TABLE_FULL, table1) \<longrightarrow> table1 = table)"
proof
  let ?t0 = "\<lparr> pager = \<lparr> file_descriptor = [], file_length = 0, pages = (\<lambda>_. None) \<rparr>, num_rows = 0 \<rparr>"
  from len have "unat (num_rows ?t0) + length rs \<le> unat (TABLE_MAX_ROWS c)" by simp
  from execute_all_inserts_count [OF ok this]
  obtain t1 where t1: "execute_all c ?t0 (map insert_stmt rs) =
        Inr (map (\<lambda>_. (EXECUTE_SUCCESS, [])) rs, t1)"
    and n1: "unat (num_rows t1) = length rs" by auto
  from n1 len have "TABLE_MAX_ROWS c \<le> num_rows t1" by (simp add: word_le_nat_alt)
  then have "execute_insert c (insert_stmt r) t1 = Inr (EXECUTE_TABLE_FULL, t1)"
    by (rule execute_insert_full)
  then show "session c None (map insert_stmt rs @ [insert_stmt r]) =
           Inr (map (\<lambda>_. (EXECUTE_SUCCESS, [])) rs @ [(EXECUTE_TABLE_FULL, [])])"
    by (simp add: session_def db_open_empty execute_all_append t1 execute_statement_insert)
next
  show "\<forall>s table table1.
      execute_insert c s table = Inr (EXECUTE_TABLE_FULL, table1) \<longrightarrow> table1 = table"
    using execute_insert_result by blast
qed

theorem insert_capacity_boundary_witness:
  "limits_ok default_limits \<and>
   length (replicate 1300 (mk_row 5 ''eve'' ''eve@example.com'')) = unat (TABLE_MAX_ROWS default_limits) \<and>
   session default_limits None
     (map insert_stmt (replicate 1300 (mk_row 5 ''eve'' ''eve@example.com''))
      @ [insert_stmt (mk_row 6 ''frank'' ''frank@example.com'')]) =
   Inr (map (\<lambda>_. (EXECUTE_SUCCESS, [])) (replicate 1300 (mk_row 5 ''eve'' ''eve@example.com''))
        @ [(EXECUTE_TABLE_FULL, [])])"
proof -
  have len: "length (replicate 1300 (mk_row 5 ''eve'' ''eve@example.com''))
      = unat (TABLE_MAX_ROWS default_limits)"
    by (simp add: default_limits_def)
  from insert_capacity_boundary [OF limits_ok_default len, of "mk_row 6 ''frank'' ''frank@example.com''"]
  have "session default_limits None
     (map insert_stmt (replicate 1300 (mk_row 5 ''eve'' ''eve@example.com''))
      @ [insert_stmt (mk_row 6 ''frank'' ''frank@example.com'')]) =
   Inr (map (\<lambda>_. (EXECUTE_SUCCESS, [])) (replicate 1300 (mk_row 5 ''eve'' ''eve@example.com''))
        @ [(EXECUTE_TABLE_FULL, [])])"
    by (rule conjunct1)
  with limits_ok_default len show ?thesis by (simp only: simp_thms)
qed

text \<open>
  C5 at its failing input. \<^verbatim>\<open>prepare_statement\<close> accepts an insert with a negative id:
  \<^verbatim>\<open>%d\<close> stores \<open>-1\<close> in the \<^verbatim>\<open>uint32_t\<close> id, the result is \<^verbatim>\<open>PREPARE_SUCCESS\<close>, and
  executing the prepared statement stores a row with id 4294967295. No path of
  \<^verbatim>\<open>prepare_statement\<close> returns \<^verbatim>\<open>PREPARE_NEGATIVE_ID\<close> or \<^verbatim>\<open>PREPARE_STRING_TOO_LONG\<close>
  (lemma \<open>prepare_never_validates\<close>).
\<close>

theorem prepare_accepts_negative_id:
  "prepare_statement ''insert -1 bob bob@example.com'' (select_stmt (mk_row 0 [] [])) =
     Returned PREPARE_SUCCESS (insert_stmt (mk_row 4294967295 ''bob'' ''bob@example.com'')) \<and>
   session default_limits None
     [insert_stmt (mk_row 4294967295 ''bob'' ''bob@example.com''), select_stmt (mk_row 0 [] [])] =
     Inr [(EXECUTE_SUCCESS, []),
          (EXECUTE_SUCCESS, [mk_row 4294967295 ''bob'' ''bob@example.com''])]"
proof -
  have "prepare_statement ''insert -1 bob bob@example.com'' (select_stmt (mk_row 0 [] [])) =
     Returned PREPARE_SUCCESS (insert_stmt (mk_row 4294967295 ''bob'' ''bob@example.com''))"
    by code_simp
  moreover have len: "length [mk_row 4294967295 ''bob'' ''bob@example.com'']
      \<le> unat (TABLE_MAX_ROWS default_limits)"
    by (simp add: default_limits_def)
  have wf: "\<forall>r \<in> set [mk_row 4294967295 ''bob'' ''bob@example.com'']. row_wf r"
    by (simp add: row_wf_mk_row)
  have "session default_limits None
     [insert_stmt (mk_row 4294967295 ''bob'' ''bob@example.com''), select_stmt (mk_row 0 [] [])] =
     Inr [(EXECUTE_SUCCESS, []),
          (EXECUTE_SUCCESS, [mk_row 4294967295 ''bob'' ''bob@example.com''])]"
    using session_inserts_then_select [OF limits_ok_default len wf, of "mk_row 0 [] []"]
    by simp
  ultimately show ?thesis by blast
qed

text \<open>
  C6. In every tree that satisfies the invariants of the data model, \<open>find\<close> returns a
  cursor into a leaf of the tree such that all keys of the leaves before it are smaller
  and all keys of the leaves after it are larger than the key sought: if the key is in
  the tree, the cursor's cell holds it; if it is not, inserting it at the cursor's cell
  index keeps the keys of a full scan strictly increasing.
\<close>

theorem table_find_position:
  assumes inv: "btree_inv t"
  shows "\<exists>pre cells post.
     leaf_nodes t = pre @ [(page_num (table_find t K), cells)] @ post \<and>
     cell_num (table_find t K) \<le> length cells \<and>
     (K \<in> set (all_keys t) \<longrightarrow>
        cell_num (table_find t K) < length cells \<and>
        fst (cells ! cell_num (table_find t K)) = K) \<and>
     (K \<notin> set (all_keys t) \<longrightarrow>
        sorted_wrt (<)
          (leaf_keys pre @ take (cell_num (table_find t K)) (map fst cells) @ [K] @
           drop (cell_num (table_find t K)) (map fst cells) @ leaf_keys post))"
proof -
  from table_find_descent [OF inv, of K]
  obtain pre cells post where
    l: "leaf_nodes t = pre @ [(page_num (table_find t K), cells)] @ post"
    and n: "cell_num (table_find t K) = leaf_node_search (map fst cells) K 0 (length (map fst cells))"
    and p: "\<forall>k \<in> set (leaf_keys pre). k < K" and q: "\<forall>k \<in> set (leaf_keys post). K < k"
    by auto
  from l have ak: "all_keys t = leaf_keys pre @ map fst cells @ leaf_keys post"
    by (simp add: all_keys_def leaf_keys_def)
  from inv have srt: "sorted_wrt (<) (leaf_keys pre @ map fst cells @ leaf_keys post)"
    by (simp add: btree_inv_def ak)
  note pos = leaf_position [OF srt p q]
  have "cell_num (table_find t K) \<le> length cells"
    using pos(1) n by simp
  moreover have "K \<in> set (all_keys t) \<longrightarrow>
        cell_num (table_find t K) < length cells \<and> fst (cells ! cell_num (table_find t K)) = K"
  proof
    assume "K \<in> set (all_keys t)"
    then have "K \<in> set (leaf_keys pre @ map fst cells @ leaf_keys post)" by (simp add: ak)
    from pos(2) [OF this]
    have "cell_num (table_find t K) < length (map fst cells)"
      and "map fst cells ! cell_num (table_find t K) = K"
      unfolding n by blast+
    then show "cell_num (table_find t K) < length cells \<and>
        fst (cells ! cell_num (table_find t K)) = K"
      by simp
  qed
  moreover have "K \<notin> set (all_keys t) \<longrightarrow>
        sorted_wrt (<)
          (leaf_keys pre @ take (cell_num (table_find t K)) (map fst cells) @ [K] @
           drop (cell_num (table_find t K)) (map fst cells) @ leaf_keys post)"
  proof
    assume "K \<notin> set (all_keys t)"
    then have "K \<notin> set (leaf_keys pre @ map fst cells @ leaf_keys post)" by (simp add: ak)
    from pos(3) [OF this]
    show "sorted_wrt (<)
          (leaf_keys pre @ take (cell_num (table_find t K)) (map fst cells) @ [K] @
           drop (cell_num (table_find t K)) (map fst cells) @ leaf_keys post)"
      unfolding n .
  qed
  ultimately show ?thesis using l by blast
qed

theorem table_find_position_witness:
  "btree_inv example_tree \<and>
   table_find example_tree 3 = \<lparr> page_num = 2, cell_num = 0 \<rparr> \<and>
   table_find example_tree 5 = \<lparr> page_num = 2, cell_num = 1 \<rparr> \<and>
   (\<exists>pre cells post.
      leaf_nodes example_tree = pre @ [(page_num (table_find example_tree 3), cells)] @ post \<and>
      fst (cells ! cell_num (table_find example_tree 3)) = 3) \<and>
   (\<exists>pre cells post.
      leaf_nodes example_tree = pre @ [(page_num (table_find example_tree 5), cells)] @ post \<and>
      sorted_wrt (<)
        (leaf_keys pre @ take (cell_num (table_find example_tree 5)) (map fst cells) @ [5] @
         drop (cell_num (table_find example_tree 5)) (map fst cells) @ leaf_keys post))"
proof -
  have inv: "btree_inv example_tree"
    by (simp add: example_tree_def btree_inv_def all_keys_def leaf_keys_def)
  have k3: "3 \<in> set (all_keys example_tree)" and k5: "5 \<notin> set (all_keys example_tree)"
    by (simp_all add: example_tree_def all_keys_def leaf_keys_def)
  have f3: "table_find example_tree 3 = \<lparr> page_num = 2, cell_num = 0 \<rparr>" by code_simp
  have f5: "table_find example_tree 5 = \<lparr> page_num = 2, cell_num = 1 \<rparr>" by code_simp
  from table_find_position [OF inv, of 3] k3
  have a: "\<exists>pre cells post.
      leaf_nodes example_tree = pre @ [(page_num (table_find example_tree 3), cells)] @ post \<and>
      fst (cells ! cell_num (table_find example_tree 3)) = 3"
    by blast
  from table_find_position [OF inv, of 5] k5
  have b: "\<exists>pre cells post.
      leaf_nodes example_tree = pre @ [(page_num (table_find example_tree 5), cells)] @ post \<and>
      sorted_wrt (<)
        (leaf_keys pre @ take (cell_num (table_find example_tree 5)) (map fst cells) @ [5] @
         drop (cell_num (table_find example_tree 5)) (map fst cells) @ leaf_keys post)"
    by blast
  from inv f3 f5 a b show ?thesis by blast
qed

text \<open>
  C7. Opening a table from an empty file (length zero) gives a table with no rows, and a
  full scan of it prints zero rows and returns \<^verbatim>\<open>EXECUTE_SUCCESS\<close>.
\<close>

theorem open_empty_file_scan:
  "db_open (Some []) =
     Inr \<lparr> pager = \<lparr> file_descriptor = [], file_length = 0, pages = (\<lambda>_. None) \<rparr>, num_rows = 0 \<rparr> \<and>
   execute_select c s
     \<lparr> pager = \<lparr> file_descriptor = [], file_length = 0, pages = (\<lambda>_. None) \<rparr>, num_rows = 0 \<rparr> =
     Inr (EXECUTE_SUCCESS, [],
          \<lparr> pager = \<lparr> file_descriptor = [], file_length = 0, pages = (\<lambda>_. None) \<rparr>, num_rows = 0 \<rparr>) \<and>
   session c (Some []) [select_stmt r0] = Inr [(EXECUTE_SUCCESS, [])]"
proof -
  let ?t0 = "\<lparr> pager = \<lparr> file_descriptor = [], file_length = 0, pages = (\<lambda>_. None) \<rparr>, num_rows = 0 \<rparr>"
  have loop: "select_loop c 0 ?t0 [] = Inr ([], ?t0)"
    by (subst select_loop.simps) simp
  then have sel: "execute_select c s ?t0 = Inr (EXECUTE_SUCCESS, [], ?t0)" for s
    by (simp add: execute_select_def)
  then show ?thesis
    by (simp add: db_open_empty session_def execute_statement_select)
qed

text \<open>
  C8. Opening a backing file fails with \<open>IOError\<close> exactly when the file length is not
  a whole multiple of \<^verbatim>\<open>PAGE_SIZE\<close>; otherwise it succeeds and the pager records the
  file and its length (exactly, for a length that fits \<^verbatim>\<open>uint32_t\<close>); an absent file is
  opened as an empty one.
\<close>

theorem db_open_page_multiple:
  "(length bs mod PAGE_SIZE \<noteq> 0 \<longrightarrow> db_open (Some bs) = Inl IOError) \<and>
   (length bs mod PAGE_SIZE = 0 \<longrightarrow>
      (\<exists>table. db_open (Some bs) = Inr table \<and>
         file_descriptor (pager table) = bs \<and>
         file_length (pager table) = of_nat (length bs) \<and>
         (length bs < 2 ^ 32 \<longrightarrow> unat (file_length (pager table)) = length bs))) \<and>
   db_open None = db_open (Some [])"
  by (auto simp: db_open_def pager_open_def Let_def unat_of_nat)

theorem db_open_page_multiple_witness:
  "db_open (Some [1, 2, 3]) = Inl IOError \<and>
   (\<exists>table. db_open (Some (replicate 8192 0)) = Inr table \<and>
      unat (file_length (pager table)) = 8192)"
proof -
  have a: "length [1, 2, 3 :: byte] mod PAGE_SIZE \<noteq> 0" by (simp add: PAGE_SIZE_def)
  have b: "length (replicate 8192 (0 :: byte)) mod PAGE_SIZE = 0" by (simp add: PAGE_SIZE_def)
  have c: "length (replicate 8192 (0 :: byte)) < 2 ^ 32" by simp
  from db_open_page_multiple [of "[1, 2, 3]"] a have "db_open (Some [1, 2, 3]) = Inl IOError"
    by blast
  moreover from db_open_page_multiple [of "replicate 8192 0"] b c
  have "\<exists>table. db_open (Some (replicate 8192 0)) = Inr table \<and>
      unat (file_length (pager table)) = 8192"
    by auto
  ultimately show ?thesis by blast
qed

text \<open>
  C9. For every row number \<open>r\<close> whose page is within the page cache, \<^verbatim>\<open>row_slot\<close>
  returns the slot in page \<open>r div ROWS_PER_PAGE\<close> at byte offset
  \<open>(r mod ROWS_PER_PAGE) * ROW_SIZE\<close>; whenever it returns a slot, the slot is that
  one, its \<^verbatim>\<open>ROW_SIZE\<close> bytes end inside the page, and the slots of two distinct row
  numbers are disjoint byte regions.
\<close>

theorem row_slot_location:
  assumes lay: "page_layout_ok c"
  shows "(unat r div unat (ROWS_PER_PAGE c) < TABLE_MAX_PAGES \<longrightarrow>
            (\<exists>table1. row_slot c table r =
               Inr (table1, (unat r div unat (ROWS_PER_PAGE c),
                             (unat r mod unat (ROWS_PER_PAGE c)) * ROW_SIZE)))) \<and>
         (\<forall>table1 p. row_slot c table r = Inr (table1, p) \<longrightarrow>
            p = (unat r div unat (ROWS_PER_PAGE c), (unat r mod unat (ROWS_PER_PAGE c)) * ROW_SIZE) \<and>
            snd p + ROW_SIZE \<le> PAGE_SIZE \<and>
            (\<forall>r' table' table2 q. r' \<noteq> r \<and> row_slot c table' r' = Inr (table2, q) \<longrightarrow>
               regions_disjoint p ROW_SIZE q ROW_SIZE))"
proof (intro conjI allI impI)
  assume "unat r div unat (ROWS_PER_PAGE c) < TABLE_MAX_PAGES"
  then show "\<exists>table1. row_slot c table r =
      Inr (table1, (unat r div unat (ROWS_PER_PAGE c), (unat r mod unat (ROWS_PER_PAGE c)) * ROW_SIZE))"
    by (simp add: row_slot_eq [OF lay] get_page_cases unat_page_num slot_ptr_def)
next
  fix table1 p assume rs: "row_slot c table r = Inr (table1, p)"
  then show p: "p = (unat r div unat (ROWS_PER_PAGE c), (unat r mod unat (ROWS_PER_PAGE c)) * ROW_SIZE)"
    by (auto simp: row_slot_eq [OF lay] slot_ptr_def split: sum.splits)
  then have ps: "p = slot_ptr c (unat r)" by (simp add: slot_ptr_def)
  show "snd p + ROW_SIZE \<le> PAGE_SIZE"
    unfolding ps by (rule slot_offset_bound [OF lay])
  fix r' table' table2 q
  assume "r' \<noteq> r \<and> row_slot c table' r' = Inr (table2, q)"
  then have ne: "r' \<noteq> r" and qs: "q = slot_ptr c (unat r')"
    by (auto simp: row_slot_eq [OF lay] split: sum.splits)
  from ne have "unat r \<noteq> unat r'" by (simp add: word_unat_eq_iff)
  moreover from lay have "0 < unat (ROWS_PER_PAGE c)" by (simp add: page_layout_ok_def)
  ultimately show "regions_disjoint p ROW_SIZE q ROW_SIZE"
    unfolding ps qs by (rule slots_disjoint [rotated])
qed

theorem row_slot_location_witness:
  "page_layout_ok default_limits \<and>
   (\<exists>table1. row_slot default_limits
       \<lparr> pager = \<lparr> file_descriptor = [], file_length = 0, pages = (\<lambda>_. None) \<rparr>, num_rows = 0 \<rparr> 14
      = Inr (table1, (1, 293))) \<and>
   293 + ROW_SIZE \<le> PAGE_SIZE"
proof -
  let ?t0 = "\<lparr> pager = \<lparr> file_descriptor = [], file_length = 0, pages = (\<lambda>_. None) \<rparr>, num_rows = 0 \<rparr>"
  have pg: "unat (14 :: u32) div unat (ROWS_PER_PAGE default_limits) < TABLE_MAX_PAGES"
    by (simp add: default_limits_def TABLE_MAX_PAGES_def)
  have loc: "(unat (14 :: u32) div unat (ROWS_PER_PAGE default_limits),
              (unat (14 :: u32) mod unat (ROWS_PER_PAGE default_limits)) * ROW_SIZE) = (1, 293)"
    by (simp add: default_limits_def ROW_SIZE_val)
  from row_slot_location [OF page_layout_ok_default, of 14 ?t0] pg
  obtain table1 where t1: "row_slot default_limits ?t0 14 =
      Inr (table1, (unat (14 :: u32) div unat (ROWS_PER_PAGE default_limits),
                    (unat (14 :: u32) mod unat (ROWS_PER_PAGE default_limits)) * ROW_SIZE))"
    by blast
  with row_slot_location [OF page_layout_ok_default, of 14 ?t0]
  have "snd (unat (14 :: u32) div unat (ROWS_PER_PAGE default_limits),
              (unat (14 :: u32) mod unat (ROWS_PER_PAGE default_limits)) * ROW_SIZE) + ROW_SIZE \<le> PAGE_SIZE"
    by blast
  with t1 page_layout_ok_default show ?thesis
    unfolding loc by auto
qed

text \<open>
  C10. An \<^verbatim>\<open>execute_insert\<close> that returns \<^verbatim>\<open>EXECUTE_SUCCESS\<close> increments the row
  count by exactly one (without wrap-around), and for every row index below the old row
  count the bytes of that row's slot are the same before and after the insert.
\<close>

theorem execute_insert_frame:
  assumes lay: "page_layout_ok c"
    and ex: "execute_insert c s table = Inr (EXECUTE_SUCCESS, table1)"
  shows "num_rows table1 = num_rows table + 1 \<and>
         unat (num_rows table1) = unat (num_rows table) + 1 \<and>
         (\<forall>i. i < num_rows table \<longrightarrow> slot_bytes c table1 i = slot_bytes c table i)"
proof (intro conjI allI impI)
  let ?n = "unat (num_rows table)"
  let ?k = "fst (slot_ptr c ?n)"
  from execute_insert_success_layout [OF lay ex]
  have lt: "num_rows table < TABLE_MAX_ROWS c"
    and t1: "table1 = \<lparr> pager = (pager table)\<lparr>pages :=
               serialize_row (row_to_insert s) (slot_ptr c ?n)
                 ((pages (pager table))(?k \<mapsto> page_after (pager table) ?k))\<rparr>,
            num_rows = num_rows table + 1 \<rparr>"
    by simp_all
  from t1 show n1: "num_rows table1 = num_rows table + 1" by simp
  show "unat (num_rows table1) = unat (num_rows table) + 1"
    using unat_succ_less [OF lt] n1 by simp
  fix i assume i: "i < num_rows table"
  then have ne: "unat i \<noteq> ?n" by (simp add: word_less_nat_alt)
  from lay have pos: "0 < unat (ROWS_PER_PAGE c)" by (simp add: page_layout_ok_def)
  have fd: "file_descriptor (pager table1) = file_descriptor (pager table)"
    by (simp add: t1)
  have pgs: "pages (pager table1) = serialize_row (row_to_insert s) (slot_ptr c ?n)
                 ((pages (pager table))(?k \<mapsto> page_after (pager table) ?k))"
    by (simp add: t1)
  have "read_page (page_after (pager table1) (fst (slot_ptr c (unat i)))) (snd (slot_ptr c (unat i))) ROW_SIZE =
        read_page (page_after (pager table) (fst (slot_ptr c (unat i)))) (snd (slot_ptr c (unat i))) ROW_SIZE"
    by (rule read_page_after_insert [OF pos ne fd pgs])
  then show "slot_bytes c table1 i = slot_bytes c table i"
    by (simp add: slot_bytes_eq [OF lay])
qed

theorem execute_insert_frame_witness:
  "\<exists>t1 t2.
     execute_insert default_limits (insert_stmt (mk_row 1 ''alice'' ''alice@example.com''))
       \<lparr> pager = \<lparr> file_descriptor = [], file_length = 0, pages = (\<lambda>_. None) \<rparr>, num_rows = 0 \<rparr>
       = Inr (EXECUTE_SUCCESS, t1) \<and>
     execute_insert default_limits (insert_stmt (mk_row 2 ''bob'' ''bob@example.com'')) t1
       = Inr (EXECUTE_SUCCESS, t2) \<and>
     num_rows t1 = 1 \<and> num_rows t2 = 2 \<and>
     slot_bytes default_limits t2 0 = slot_bytes default_limits t1 0"
proof -
  let ?t0 = "\<lparr> pager = \<lparr> file_descriptor = [], file_length = 0, pages = (\<lambda>_. None) \<rparr>, num_rows = 0 \<rparr>"
  let ?s1 = "insert_stmt (mk_row 1 ''alice'' ''alice@example.com'')"
  let ?s2 = "insert_stmt (mk_row 2 ''bob'' ''bob@example.com'')"
  have "num_rows ?t0 < TABLE_MAX_ROWS default_limits" by (simp add: default_limits_def)
  from execute_insert_success [OF limits_ok_default this, of ?s1]
  obtain t1 where e1: "execute_insert default_limits ?s1 ?t0 = Inr (EXECUTE_SUCCESS, t1)"
    by blast
  from execute_insert_frame [OF page_layout_ok_default e1]
  have n1: "num_rows t1 = 1" by simp
  then have "num_rows t1 < TABLE_MAX_ROWS default_limits" by (simp add: default_limits_def)
  from execute_insert_success [OF limits_ok_default this, of ?s2]
  obtain t2 where e2: "execute_insert default_limits ?s2 t1 = Inr (EXECUTE_SUCCESS, t2)"
    by blast
  from execute_insert_frame [OF page_layout_ok_default e2] n1
  have "num_rows t2 = 2" and "slot_bytes default_limits t2 0 = slot_bytes default_limits t1 0"
    by simp_all
  with e1 e2 n1 show ?thesis by blast
qed

end
